theory Spec2Isabelle
  imports Main "HOL-Library.AList" "HOL-Library.Log_Nat"
begin

section \<open>Data model of a model document\<close>

text \<open>
  A model document is the JSON object read by \<open>acbp_tester.py\<close>. Keys that the code
  reads with \<open>c["key"]\<close> are optional fields: a missing key is \<open>None\<close>, and reading it
  raises \<open>KeyError\<close>. Strings are ASCII; a dict is an association list in insertion
  order. Python integers are \<open>int\<close>.
\<close>

datatype py_error = KeyError | ZeroDivisionError | OverflowError

datatype when_spec = One string | Many "string list"

record constraint =
  c_type :: "string option"
  c_a :: "string option"
  c_b :: "string option"
  c_flags :: "string list option"
  c_if_flag :: "string option"
  c_when :: "(string \<times> when_spec) list option"
  c_condition :: "string option"

record model =
  m_name :: string
  m_flags :: "string list"
  m_categories :: "(string \<times> string list) list"
  m_constraints :: "constraint list"
  m_enumeration_limit_bits :: "int option"

text \<open>Sequencing of computations that may raise: the first error wins.\<close>

definition ebind :: "py_error + 'a \<Rightarrow> ('a \<Rightarrow> py_error + 'b) \<Rightarrow> py_error + 'b" where
  "ebind x f = (case x of Inl e \<Rightarrow> Inl e | Inr v \<Rightarrow> f v)"

text \<open>\<open>d[k]\<close> on a dict or an object: \<open>KeyError\<close> when the key is absent.\<close>

definition getitem :: "'a option \<Rightarrow> py_error + 'a" where
  "getitem v = (case v of None \<Rightarrow> Inl KeyError | Some x \<Rightarrow> Inr x)"

text \<open>\<open>str.upper\<close> on ASCII text.\<close>

definition upper_char :: "char \<Rightarrow> char" where
  "upper_char ch =
     (let n = (of_char ch :: nat) in if 97 \<le> n \<and> n \<le> 122 then char_of (n - 32) else ch)"

definition upper :: "string \<Rightarrow> string" where
  "upper s = map upper_char s"

section \<open>Core helpers\<close>

text \<open>\<open>{f: i for i, f in enumerate(flags)}\<close>: a later occurrence of a name overwrites
  an earlier one.\<close>

definition bitpos_map :: "string list \<Rightarrow> (string \<rightharpoonup> nat)" where
  "bitpos_map fs = fold (\<lambda>(i, f) m. m(f \<mapsto> i)) (enumerate 0 fs) Map.empty"

text \<open>\<open>bit(mask, p) = (mask >> p) & 1\<close>.\<close>

definition bit_val :: "int \<Rightarrow> nat \<Rightarrow> int" where
  "bit_val msk p = and (drop_bit p msk) 1"

text \<open>\<open>sum(bit(mask, pos[f]) for f in fset)\<close>.\<close>

fun sum_bits :: "(string \<rightharpoonup> nat) \<Rightarrow> int \<Rightarrow> string list \<Rightarrow> py_error + int" where
  "sum_bits pos msk [] = Inr 0"
| "sum_bits pos msk (f # fset) =
     ebind (getitem (pos f)) (\<lambda>p.
     ebind (sum_bits pos msk fset) (\<lambda>s. Inr (bit_val msk p + s)))"

text \<open>
  The body of the loop of \<open>ok\<close> for one constraint: \<open>Inr False\<close> is
  \<open>return False\<close>, \<open>Inr True\<close> is falling through to the next constraint. The
  \<open>and\<close> of the IMPLIES branch is short-circuited, so \<open>pos[b]\<close> is read only when bit
  \<open>a\<close> is set. A type tag that matches no branch falls through.
\<close>

definition ok_step :: "(string \<rightharpoonup> nat) \<Rightarrow> int \<Rightarrow> constraint \<Rightarrow> py_error + bool" where
  "ok_step pos msk c =
     ebind (getitem (c_type c)) (\<lambda>ty. let t = upper ty in
       if t = ''IMPLIES'' then
         ebind (getitem (c_a c)) (\<lambda>a. ebind (getitem (c_b c)) (\<lambda>b.
         ebind (getitem (pos a)) (\<lambda>pa.
           if bit_val msk pa = 1
           then ebind (getitem (pos b)) (\<lambda>pb. Inr (\<not> (bit_val msk pb = 0)))
           else Inr True)))
       else if t = ''EQUIV'' then
         ebind (getitem (c_a c)) (\<lambda>a. ebind (getitem (c_b c)) (\<lambda>b.
         ebind (getitem (pos a)) (\<lambda>pa. ebind (getitem (pos b)) (\<lambda>pb.
           Inr (\<not> (bit_val msk pa \<noteq> bit_val msk pb))))))
       else if t = ''MUTEX'' then
         ebind (getitem (c_a c)) (\<lambda>a. ebind (getitem (c_b c)) (\<lambda>b.
         ebind (getitem (pos a)) (\<lambda>pa. ebind (getitem (pos b)) (\<lambda>pb.
           Inr (\<not> (bit_val msk pa + bit_val msk pb > 1))))))
       else if t = ''ONEOF'' then
         ebind (getitem (c_flags c)) (\<lambda>fset.
         ebind (sum_bits pos msk fset) (\<lambda>cnt. Inr (\<not> (cnt \<noteq> 1))))
       else if t = ''FORBID_WHEN'' \<or> t = ''FORBID_IF_SQL'' then Inr True
       else Inr True)"

fun ok_loop :: "(string \<rightharpoonup> nat) \<Rightarrow> int \<Rightarrow> constraint list \<Rightarrow> py_error + bool" where
  "ok_loop pos msk [] = Inr True"
| "ok_loop pos msk (c # cs) =
     (case ok_step pos msk c of
        Inl e \<Rightarrow> Inl e
      | Inr False \<Rightarrow> Inr False
      | Inr True \<Rightarrow> ok_loop pos msk cs)"

definition ok :: "model \<Rightarrow> int \<Rightarrow> py_error + bool" where
  "ok m msk = ok_loop (bitpos_map (m_flags m)) msk (m_constraints m)"

text \<open>\<open>[x for x in xs if p(x)]\<close> where \<open>p\<close> may raise.\<close>

fun collect :: "('a \<Rightarrow> py_error + bool) \<Rightarrow> 'a list \<Rightarrow> py_error + 'a list" where
  "collect p [] = Inr []"
| "collect p (x # xs) =
     (case p x of
        Inl e \<Rightarrow> Inl e
      | Inr keep \<Rightarrow>
          (case collect p xs of
             Inl e \<Rightarrow> Inl e
           | Inr ys \<Rightarrow> Inr (if keep then x # ys else ys)))"

definition limit_bits :: "model \<Rightarrow> int" where
  "limit_bits m = (case m_enumeration_limit_bits m of None \<Rightarrow> 22 | Some l \<Rightarrow> l)"

definition enumerate_valid_masks :: "model \<Rightarrow> py_error + int list" where
  "enumerate_valid_masks m =
     (let B = length (m_flags m) in
      if int B > limit_bits m then Inr []
      else collect (ok m) (map int [0 ..< 2 ^ B]))"


section \<open>Text output\<close>

text \<open>\<open>str(n)\<close> for integers, \<open>sep.join(xs)\<close> and the \<open>repr\<close> of a list of integers.\<close>

definition digit_char :: "nat \<Rightarrow> char" where
  "digit_char d = char_of (48 + d)"

fun str_nat :: "nat \<Rightarrow> string" where
  "str_nat n = (if n < 10 then [digit_char n] else str_nat (n div 10) @ [digit_char (n mod 10)])"

declare str_nat.simps [simp del]

definition str_int :: "int \<Rightarrow> string" where
  "str_int i = (if i < 0 then CHR ''-'' # str_nat (nat (- i)) else str_nat (nat i))"

fun join :: "string \<Rightarrow> string list \<Rightarrow> string" where
  "join sep [] = []"
| "join sep [x] = x"
| "join sep (x # y # ys) = x @ sep @ join sep (y # ys)"

definition repr_int_list :: "int list \<Rightarrow> string" where
  "repr_int_list xs = ''['' @ join '', '' (map str_int xs) @ '']''"

text \<open>
  The \<open>if args.enumerate:\<close> block of \<open>main\<close>: the lines it prints. An empty list of
  masks is falsy, so \<open>if valid:\<close> takes the \<open>else\<close> branch for it.
\<close>

definition main_enumerate :: "model \<Rightarrow> py_error + string list" where
  "main_enumerate m =
     ebind (enumerate_valid_masks m) (\<lambda>valid.
       if valid \<noteq> [] then
         Inr [''  Valid masks enumerated (bit-only): '' @ str_int (int (length valid)) @ '' / ''
                @ str_int (push_bit (length (m_flags m)) 1),
              ''  First few: '' @ repr_int_list (take 16 valid)]
       else
         Inr [''  Enumeration skipped (B>'' @ str_int (limit_bits m) @ '').''])"

section \<open>SQL builders\<close>

text \<open>\<open>_bit_expr\<close>, and \<open>predicate_sql_for_bit_constraints\<close> with its loop body
  \<open>pred_step\<close>: the predicates one constraint appends to \<open>preds\<close>.\<close>

definition bit_expr :: "nat \<Rightarrow> string \<Rightarrow> string" where
  "bit_expr p mask_expr = ''((('' @ mask_expr @ '' >> '' @ str_nat p @ '') & 1))''"

fun sum_shifts :: "(string \<rightharpoonup> nat) \<Rightarrow> string list \<Rightarrow> py_error + int" where
  "sum_shifts pos [] = Inr 0"
| "sum_shifts pos (f # fset) =
     ebind (getitem (pos f)) (\<lambda>p.
     ebind (sum_shifts pos fset) (\<lambda>s. Inr (push_bit p 1 + s)))"

definition pred_step :: "(string \<rightharpoonup> nat) \<Rightarrow> string \<Rightarrow> constraint \<Rightarrow> py_error + string list" where
  "pred_step pos mask_expr c =
     ebind (getitem (c_type c)) (\<lambda>ty. let t = upper ty in
       if t = ''IMPLIES'' then
         ebind (getitem (c_a c)) (\<lambda>a. ebind (getitem (pos a)) (\<lambda>pa.
         ebind (getitem (c_b c)) (\<lambda>b. ebind (getitem (pos b)) (\<lambda>pb.
           Inr [''('' @ bit_expr pa mask_expr @ '' = 0 OR '' @ bit_expr pb mask_expr @ '' = 1)'']))))
       else if t = ''EQUIV'' then
         ebind (getitem (c_a c)) (\<lambda>a. ebind (getitem (pos a)) (\<lambda>pa.
         ebind (getitem (c_b c)) (\<lambda>b. ebind (getitem (pos b)) (\<lambda>pb.
           Inr [''('' @ bit_expr pa mask_expr @ '' = '' @ bit_expr pb mask_expr @ '')'']))))
       else if t = ''MUTEX'' then
         ebind (getitem (c_a c)) (\<lambda>a. ebind (getitem (pos a)) (\<lambda>pa.
         ebind (getitem (c_b c)) (\<lambda>b. ebind (getitem (pos b)) (\<lambda>pb.
           Inr [''('' @ bit_expr pa mask_expr @ '' + '' @ bit_expr pb mask_expr @ '' <= 1)'']))))
       else if t = ''ONEOF'' then
         ebind (getitem (c_flags c)) (\<lambda>fset.
         ebind (sum_shifts pos fset) (\<lambda>maskbits.
           Inr [''(acbp_popcount('' @ mask_expr @ '' & '' @ str_int maskbits @ '') = 1)'']))
       else if t = ''FORBID_WHEN'' \<or> t = ''FORBID_IF_SQL'' then Inr []
       else Inr [])"

fun preds_loop :: "(string \<rightharpoonup> nat) \<Rightarrow> string \<Rightarrow> constraint list \<Rightarrow> py_error + string list" where
  "preds_loop pos mask_expr [] = Inr []"
| "preds_loop pos mask_expr (c # cs) =
     ebind (pred_step pos mask_expr c) (\<lambda>p.
     ebind (preds_loop pos mask_expr cs) (\<lambda>ps. Inr (p @ ps)))"

definition predicate_sql_for_bit_constraints ::
    "string list \<Rightarrow> constraint list \<Rightarrow> string \<Rightarrow> py_error + string" where
  "predicate_sql_for_bit_constraints fs cs mask_expr =
     ebind (preds_loop (bitpos_map fs) mask_expr cs) (\<lambda>preds.
       Inr (if preds \<noteq> [] then join ('' AND'' @ [CHR 0x0A] @ ''    '') preds else ''TRUE''))"

section \<open>The validity conditions of the specification\<close>

text \<open>
  \<open>flag_on fs k f\<close>: in mask \<open>k\<close> the bit of flag \<open>f\<close> is set. \<open>spec_holds\<close> is the
  table of validity conditions, written from the specification and not from the code:
  IMPLIES(a,b) is NOT(bit(a)=1 AND bit(b)=0), EQUIV(a,b) is bit(a) = bit(b), MUTEX(a,b) is
  bit(a)+bit(b) \<le> 1, ONEOF(S) is that exactly one flag of S is set; every other constraint
  is not bit-only. \<open>wf_bit_constraint\<close> says that a constraint has its type tag and, when
  it is bit-only, its fields, naming declared flags.
\<close>

definition flag_on :: "string list \<Rightarrow> int \<Rightarrow> string \<Rightarrow> bool" where
  "flag_on fs k f = (case bitpos_map fs f of None \<Rightarrow> False | Some i \<Rightarrow> bit k i)"

definition wf_bit_constraint :: "string list \<Rightarrow> constraint \<Rightarrow> bool" where
  "wf_bit_constraint fs c =
     (case c_type c of
        None \<Rightarrow> False
      | Some ty \<Rightarrow>
          (let t = upper ty in
           if t = ''IMPLIES'' \<or> t = ''EQUIV'' \<or> t = ''MUTEX'' then
             (case (c_a c, c_b c) of
                (Some a, Some b) \<Rightarrow> a \<in> set fs \<and> b \<in> set fs
              | _ \<Rightarrow> False)
           else if t = ''ONEOF'' then
             (case c_flags c of Some S \<Rightarrow> set S \<subseteq> set fs | None \<Rightarrow> False)
           else True))"

definition spec_holds :: "string list \<Rightarrow> int \<Rightarrow> constraint \<Rightarrow> bool" where
  "spec_holds fs k c =
     (case c_type c of
        None \<Rightarrow> True
      | Some ty \<Rightarrow>
          (let t = upper ty in
           if t = ''IMPLIES'' then
             (case (c_a c, c_b c) of
                (Some a, Some b) \<Rightarrow> \<not> (flag_on fs k a \<and> \<not> flag_on fs k b)
              | _ \<Rightarrow> True)
           else if t = ''EQUIV'' then
             (case (c_a c, c_b c) of
                (Some a, Some b) \<Rightarrow> flag_on fs k a = flag_on fs k b
              | _ \<Rightarrow> True)
           else if t = ''MUTEX'' then
             (case (c_a c, c_b c) of
                (Some a, Some b) \<Rightarrow> (of_bool (flag_on fs k a) + of_bool (flag_on fs k b) :: nat) \<le> 1
              | _ \<Rightarrow> True)
           else if t = ''ONEOF'' then
             (case c_flags c of
                Some S \<Rightarrow> length (filter (flag_on fs k) S) = 1
              | None \<Rightarrow> True)
           else True))"

text \<open>
  The same table read through the declaration index of a flag, as the specification
  states it (the declaration index of a flag is its bit position): \<open>declaration_index\<close>
  is the index of a name in the list of flags, \<open>flag_set\<close> reads that bit of a mask,
  and \<open>satisfies\<close> is the table of validity conditions over \<open>flag_set\<close>. None of
  them refers to the dict that the code builds.
\<close>

fun declaration_index :: "string list \<Rightarrow> string \<Rightarrow> nat option" where
  "declaration_index [] f = None"
| "declaration_index (g # gs) f =
     (if g = f then Some 0 else map_option Suc (declaration_index gs f))"

definition flag_set :: "string list \<Rightarrow> int \<Rightarrow> string \<Rightarrow> bool" where
  "flag_set fs k f = (case declaration_index fs f of None \<Rightarrow> False | Some i \<Rightarrow> bit k i)"

definition satisfies :: "string list \<Rightarrow> int \<Rightarrow> constraint \<Rightarrow> bool" where
  "satisfies fs k c =
     (case c_type c of
        None \<Rightarrow> True
      | Some ty \<Rightarrow>
          (let t = upper ty in
           if t = ''IMPLIES'' then
             (case (c_a c, c_b c) of
                (Some a, Some b) \<Rightarrow> \<not> (flag_set fs k a \<and> \<not> flag_set fs k b)
              | _ \<Rightarrow> True)
           else if t = ''EQUIV'' then
             (case (c_a c, c_b c) of
                (Some a, Some b) \<Rightarrow> flag_set fs k a = flag_set fs k b
              | _ \<Rightarrow> True)
           else if t = ''MUTEX'' then
             (case (c_a c, c_b c) of
                (Some a, Some b) \<Rightarrow> (of_bool (flag_set fs k a) + of_bool (flag_set fs k b) :: nat) \<le> 1
              | _ \<Rightarrow> True)
           else if t = ''ONEOF'' then
             (case c_flags c of
                Some S \<Rightarrow> length (filter (flag_set fs k) S) = 1
              | None \<Rightarrow> True)
           else True))"

definition unknown_type :: "constraint \<Rightarrow> bool" where
  "unknown_type c =
     (case c_type c of
        None \<Rightarrow> False
      | Some ty \<Rightarrow>
          upper ty \<notin> set [''IMPLIES'', ''EQUIV'', ''MUTEX'', ''ONEOF'', ''FORBID_WHEN'', ''FORBID_IF_SQL''])"

section \<open>Properties of the helpers\<close>

lemma ebind_Inr [simp]: "ebind (Inr v) f = f v"
  by (simp add: ebind_def)

lemma ebind_Inl [simp]: "ebind (Inl e) f = Inl e"
  by (simp add: ebind_def)

lemma getitem_Some [simp]: "getitem (Some x) = Inr x"
  by (simp add: getitem_def)

lemma getitem_None [simp]: "getitem None = Inl KeyError"
  by (simp add: getitem_def)

lemma bit_val_of_bool: "bit_val k p = of_bool (bit k p)"
  unfolding bit_val_def
  by (simp add: and_one_eq bit_iff_odd_drop_bit mod_2_eq_odd)

lemma fold_pos_None:
  "fold (\<lambda>(i, f) m. m(f \<mapsto> i)) (enumerate n fs) m0 g = None \<longleftrightarrow> g \<notin> set fs \<and> m0 g = None"
  by (induction fs arbitrary: n m0) auto

lemma fold_pos_Some:
  "fold (\<lambda>(i, f) m. m(f \<mapsto> i)) (enumerate n fs) m0 g = Some i \<Longrightarrow>
     (g \<notin> set fs \<and> m0 g = Some i) \<or> (n \<le> i \<and> i < n + length fs \<and> fs ! (i - n) = g)"
proof (induction fs arbitrary: n m0)
  case Nil
  then show ?case by simp
next
  case (Cons f fs)
  from Cons.prems have "fold (\<lambda>(i, f) m. m(f \<mapsto> i)) (enumerate (Suc n) fs) (m0(f \<mapsto> n)) g = Some i"
    by (simp del: fun_upd_apply)
  from Cons.IH [OF this] show ?case
    by (auto split: if_splits simp: nth_Cons')
qed

lemma fold_pos_distinct:
  "distinct fs \<Longrightarrow> j < length fs \<Longrightarrow>
     fold (\<lambda>(i, f) m. m(f \<mapsto> i)) (enumerate n fs) m0 (fs ! j) = Some (n + j)"
proof (induction fs arbitrary: n m0 j)
  case Nil
  then show ?case by simp
next
  case (Cons f fs)
  show ?case
  proof (cases j)
    case 0
    have "fold (\<lambda>(i, f) m. m(f \<mapsto> i)) (enumerate (Suc n) fs) (m0(f \<mapsto> n)) f = Some n"
    proof (cases "fold (\<lambda>(i, f) m. m(f \<mapsto> i)) (enumerate (Suc n) fs) (m0(f \<mapsto> n)) f")
      case None
      then show ?thesis by (simp add: fold_pos_None)
    next
      case (Some i)
      from fold_pos_Some [OF this] Cons.prems show ?thesis
        using Some by auto
    qed
    with 0 show ?thesis by (simp del: fun_upd_apply)
  next
    case (Suc k)
    with Cons.prems have "k < length fs" "distinct fs" by auto
    from Cons.IH [OF this(2) this(1), of "Suc n" "m0(f \<mapsto> n)"] Suc show ?thesis by (simp del: fun_upd_apply)
  qed
qed

lemma bitpos_map_None: "bitpos_map fs f = None \<longleftrightarrow> f \<notin> set fs"
  by (simp add: bitpos_map_def fold_pos_None)

lemma bitpos_map_Some_less: "bitpos_map fs f = Some i \<Longrightarrow> i < length fs \<and> fs ! i = f"
  unfolding bitpos_map_def by (drule fold_pos_Some) auto

lemma bitpos_map_distinct: "distinct fs \<Longrightarrow> i < length fs \<Longrightarrow> bitpos_map fs (fs ! i) = Some i"
  unfolding bitpos_map_def by (drule fold_pos_distinct [where n = 0]) auto

lemma bitpos_map_in: "f \<in> set fs \<Longrightarrow> \<exists>i. bitpos_map fs f = Some i"
  using bitpos_map_None [of fs f] by auto

lemma sum_bits_count:
  "set S \<subseteq> set fs \<Longrightarrow>
     sum_bits (bitpos_map fs) k S = Inr (int (length (filter (flag_on fs k) S)))"
proof (induction S)
  case Nil
  then show ?case by simp
next
  case (Cons f S)
  then obtain i where i: "bitpos_map fs f = Some i"
    using bitpos_map_in [of f fs] by auto
  with Cons show ?case
    by (simp add: flag_on_def bit_val_of_bool)
qed

lemma ok_step_wf:
  assumes "wf_bit_constraint fs c"
  shows "ok_step (bitpos_map fs) k c = Inr (spec_holds fs k c)"
proof -
  from assms obtain ty where ty: "c_type c = Some ty"
    by (auto simp: wf_bit_constraint_def split: option.splits)
  consider (ab) "upper ty = ''IMPLIES'' \<or> upper ty = ''EQUIV'' \<or> upper ty = ''MUTEX''"
    | (oneof) "upper ty = ''ONEOF''"
    | (other) "upper ty \<noteq> ''IMPLIES''" "upper ty \<noteq> ''EQUIV''" "upper ty \<noteq> ''MUTEX''"
        "upper ty \<noteq> ''ONEOF''"
    by blast
  then show ?thesis
  proof cases
    case ab
    with assms ty obtain a b where ab': "c_a c = Some a" "c_b c = Some b" "a \<in> set fs" "b \<in> set fs"
      by (auto simp: wf_bit_constraint_def split: option.splits)
    then obtain pa pb where p: "bitpos_map fs a = Some pa" "bitpos_map fs b = Some pb"
      using bitpos_map_in by blast
    from ab ty ab' p show ?thesis
      by (auto simp: ok_step_def spec_holds_def flag_on_def bit_val_of_bool)
  next
    case oneof
    with assms ty obtain S where S: "c_flags c = Some S" "set S \<subseteq> set fs"
      by (auto simp: wf_bit_constraint_def split: option.splits)
    with oneof ty show ?thesis
      by (simp add: ok_step_def spec_holds_def sum_bits_count)
  next
    case other
    with ty show ?thesis
      by (simp add: ok_step_def spec_holds_def)
  qed
qed

lemma ok_loop_wf:
  "list_all (wf_bit_constraint fs) cs \<Longrightarrow>
     ok_loop (bitpos_map fs) k cs = Inr (list_all (spec_holds fs k) cs)"
  by (induction cs) (auto simp: ok_step_wf split: bool.splits)

lemma collect_total:
  "(\<And>x. x \<in> set xs \<Longrightarrow> p x = Inr (q x)) \<Longrightarrow> collect p xs = Inr (filter q xs)"
  by (induction xs) auto

lemma enumerate_skip:
  "limit_bits m < int (length (m_flags m)) \<Longrightarrow> enumerate_valid_masks m = Inr []"
  by (simp add: enumerate_valid_masks_def)

lemma enumerate_wf:
  assumes "int (length (m_flags m)) \<le> limit_bits m"
    and "list_all (wf_bit_constraint (m_flags m)) (m_constraints m)"
  shows "enumerate_valid_masks m =
     Inr (filter (\<lambda>k. list_all (spec_holds (m_flags m) k) (m_constraints m))
            (map int [0 ..< 2 ^ length (m_flags m)]))"
  using assms
  by (simp add: enumerate_valid_masks_def Let_def ok_def ok_loop_wf collect_total)

lemma declaration_index_None: "declaration_index fs f = None \<longleftrightarrow> f \<notin> set fs"
  by (induction fs) auto

lemma declaration_index_nth:
  "distinct fs \<Longrightarrow> i < length fs \<Longrightarrow> declaration_index fs (fs ! i) = Some i"
proof (induction fs arbitrary: i)
  case Nil
  then show ?case by simp
next
  case (Cons g gs)
  show ?case
  proof (cases i)
    case 0
    then show ?thesis by simp
  next
    case (Suc j)
    with Cons.prems have j: "j < length gs" "distinct gs" "gs ! j \<noteq> g" by auto
    with Cons.IH [of j] Suc show ?thesis by auto
  qed
qed

lemma bitpos_map_declaration_index:
  assumes "distinct fs"
  shows "bitpos_map fs f = declaration_index fs f"
proof (cases "f \<in> set fs")
  case False
  then have "bitpos_map fs f = None" "declaration_index fs f = None"
    by (simp_all add: bitpos_map_None declaration_index_None)
  then show ?thesis by simp
next
  case True
  then obtain i where i: "i < length fs" "fs ! i = f" by (auto simp: in_set_conv_nth)
  with assms bitpos_map_distinct [of fs i] declaration_index_nth [of fs i] show ?thesis by simp
qed

lemma flag_on_flag_set: "distinct fs \<Longrightarrow> flag_on fs k = flag_set fs k"
  by (rule ext) (simp add: flag_on_def flag_set_def bitpos_map_declaration_index)

lemma spec_holds_satisfies:
  assumes "distinct fs"
  shows "spec_holds fs = satisfies fs"
  by (intro ext) (simp only: spec_holds_def satisfies_def flag_on_flag_set [OF assms])

lemma enumerate_satisfies:
  assumes "int (length (m_flags m)) \<le> limit_bits m"
    and "distinct (m_flags m)"
    and "list_all (wf_bit_constraint (m_flags m)) (m_constraints m)"
  shows "enumerate_valid_masks m =
     Inr (filter (\<lambda>k. list_all (satisfies (m_flags m) k) (m_constraints m))
            (map int [0 ..< 2 ^ length (m_flags m)]))"
  using assms(1,3) by (simp add: enumerate_wf spec_holds_satisfies [OF assms(2)])

lemma sorted_wrt_map_int_upt: "sorted_wrt (<) (map int [i ..< j])"
  by (simp add: sorted_wrt_map sorted_wrt_iff_nth_less)







lemma upt4: "[0 ..< 4] = [0, 1, 2, Suc 2]"
  by (simp add: upt_rec)





lemma ok_step_unknown: "unknown_type c \<Longrightarrow> ok_step pos k c = Inr True"
  by (auto simp: unknown_type_def ok_step_def split: option.splits)

lemma pred_step_unknown: "unknown_type c \<Longrightarrow> pred_step pos e c = Inr []"
  by (auto simp: unknown_type_def pred_step_def split: option.splits)

lemma ok_loop_drop_unknown:
  "ok_loop pos k (filter (\<lambda>c. \<not> unknown_type c) cs) = ok_loop pos k cs"
  by (induction cs) (auto simp: ok_step_unknown split: sum.splits bool.splits)

lemma preds_loop_drop_unknown:
  "preds_loop pos e (filter (\<lambda>c. \<not> unknown_type c) cs) = preds_loop pos e cs"
proof (induction cs)
  case Nil
  then show ?case by simp
next
  case (Cons c cs)
  show ?case
  proof (cases "unknown_type c")
    case True
    then show ?thesis
      using Cons by (cases "preds_loop pos e cs") (simp_all add: pred_step_unknown)
  next
    case False
    then show ?thesis using Cons by simp
  qed
qed



lemma set_map_int_upt: "set (map int [0 ..< n]) = {k. 0 \<le> k \<and> k < int n}"
proof -
  have "k \<in> int ` {0 ..< n} \<longleftrightarrow> 0 \<le> k \<and> k < int n" for k
  proof
    assume "k \<in> int ` {0 ..< n}"
    then show "0 \<le> k \<and> k < int n" by auto
  next
    assume "0 \<le> k \<and> k < int n"
    then have "nat k \<in> {0 ..< n}" "k = int (nat k)" by auto
    then show "k \<in> int ` {0 ..< n}" by blast
  qed
  then show ?thesis by auto
qed

section \<open>Example inputs\<close>

definition typed_constraint :: "string \<Rightarrow> constraint" where
  "typed_constraint ty =
     \<lparr>c_type = Some ty, c_a = None, c_b = None, c_flags = None, c_if_flag = None,
      c_when = None, c_condition = None\<rparr>"

definition pair_constraint :: "string \<Rightarrow> string \<Rightarrow> string \<Rightarrow> constraint" where
  "pair_constraint ty a b = (typed_constraint ty)\<lparr>c_a := Some a, c_b := Some b\<rparr>"

definition oneof_constraint :: "string list \<Rightarrow> constraint" where
  "oneof_constraint S = (typed_constraint ''ONEOF'')\<lparr>c_flags := Some S\<rparr>"

definition bit_model :: "string list \<Rightarrow> constraint list \<Rightarrow> int option \<Rightarrow> model" where
  "bit_model fs cs lb =
     \<lparr>m_name = ''example'', m_flags = fs, m_categories = [], m_constraints = cs,
      m_enumeration_limit_bits = lb\<rparr>"

section \<open>The enumerator\<close>

text \<open>
  C2. With B the number of flags and the limit the field \<open>enumeration_limit_bits\<close> of
  the model (22 when the field is absent): when B exceeds the limit,
  \<open>enumerate_valid_masks\<close> returns the empty list and no error; when B is at most the
  limit (B equal to the limit included), the flag names are unique and the bit-only
  constraints have their fields and name declared flags, it returns exactly the masks of
  [0, 2^B) that satisfy every bit-only constraint, a flag being read at its declaration
  index: the list of those masks in ascending order, strictly ascending, without
  duplicates, each of them non-negative and at most 2^B - 1.
\<close>

theorem enumerate_valid_masks_spec:
  "(let B = length (m_flags m);
        limit = (case m_enumeration_limit_bits m of None \<Rightarrow> 22 | Some l \<Rightarrow> l) in
    (limit < int B \<longrightarrow> enumerate_valid_masks m = Inr []) \<and>
    (int B \<le> limit \<and> distinct (m_flags m) \<and>
     list_all (wf_bit_constraint (m_flags m)) (m_constraints m) \<longrightarrow>
       (\<exists>ms. enumerate_valid_masks m = Inr ms \<and>
          ms = filter (\<lambda>k. list_all (satisfies (m_flags m) k) (m_constraints m))
                 (map int [0 ..< 2 ^ B]) \<and>
          set ms = {k. 0 \<le> k \<and> k < 2 ^ B \<and>
                       list_all (satisfies (m_flags m) k) (m_constraints m)} \<and>
          sorted_wrt (<) ms \<and> distinct ms \<and>
          list_all (\<lambda>k. 0 \<le> k \<and> k \<le> 2 ^ B - 1) ms)))"
proof -
  define B where "B = length (m_flags m)"
  define limit where "limit = (case m_enumeration_limit_bits m of None \<Rightarrow> 22 | Some l \<Rightarrow> l)"
  have lim: "limit_bits m = limit"
    by (simp add: limit_bits_def limit_def)
  have skip: "enumerate_valid_masks m = Inr []" if "limit < int B"
    using that lim by (simp add: enumerate_skip B_def)
  have run: "\<exists>ms. enumerate_valid_masks m = Inr ms \<and>
          ms = filter (\<lambda>k. list_all (satisfies (m_flags m) k) (m_constraints m))
                 (map int [0 ..< 2 ^ B]) \<and>
          set ms = {k. 0 \<le> k \<and> k < 2 ^ B \<and>
                       list_all (satisfies (m_flags m) k) (m_constraints m)} \<and>
          sorted_wrt (<) ms \<and> distinct ms \<and>
          list_all (\<lambda>k. 0 \<le> k \<and> k \<le> 2 ^ B - 1) ms"
    if a: "int B \<le> limit \<and> distinct (m_flags m) \<and>
     list_all (wf_bit_constraint (m_flags m)) (m_constraints m)"
  proof -
    define P where "P k = list_all (satisfies (m_flags m) k) (m_constraints m)" for k
    define ms where "ms = filter P (map int [0 ..< 2 ^ B])"
    have P_eq: "P = (\<lambda>k. list_all (satisfies (m_flags m) k) (m_constraints m))"
      by (rule ext) (simp add: P_def)
    have r: "enumerate_valid_masks m = Inr ms"
      using a lim enumerate_satisfies [of m] by (simp add: ms_def P_eq B_def)
    have s: "set ms = {k. 0 \<le> k \<and> k < 2 ^ B \<and> P k}"
      unfolding ms_def set_filter set_map_int_upt by auto
    have o: "sorted_wrt (<) ms"
      unfolding ms_def by (rule sorted_wrt_filter) (rule sorted_wrt_map_int_upt)
    have d: "distinct ms"
      unfolding ms_def by (simp add: distinct_map)
    have b: "list_all (\<lambda>k. 0 \<le> k \<and> k \<le> 2 ^ B - 1) ms"
      unfolding list_all_iff s by auto
    have e: "ms = filter (\<lambda>k. list_all (satisfies (m_flags m) k) (m_constraints m))
                 (map int [0 ..< 2 ^ B])"
      by (simp add: ms_def P_eq)
    from r e s o d b show ?thesis
      unfolding P_def by blast
  qed
  from skip run show ?thesis
    unfolding Let_def B_def [symmetric] limit_def [symmetric] by blast
qed

lemma upper_MUTEX: "upper ''MUTEX'' = ''MUTEX''"
  by code_simp

lemma upper_ONEOF: "upper ''ONEOF'' = ''ONEOF''"
  by code_simp

text \<open>
  The boundary: flags a, b with MUTEX(a, b) and limit 2 (B equal to the limit) enumerate
  to [0, 1, 2], and so they do with the default limit; with limit 1 (B one more than the
  limit) the result is empty.
\<close>

theorem enumerate_valid_masks_spec_witness:
  "enumerate_valid_masks (bit_model [''a'', ''b''] [pair_constraint ''MUTEX'' ''a'' ''b''] (Some 1)) = Inr [] \<and>
   enumerate_valid_masks (bit_model [''a'', ''b''] [pair_constraint ''MUTEX'' ''a'' ''b''] (Some 2)) = Inr [0, 1, 2] \<and>
   enumerate_valid_masks (bit_model [''a'', ''b''] [pair_constraint ''MUTEX'' ''a'' ''b''] None) = Inr [0, 1, 2]"
proof -
  let ?c = "pair_constraint ''MUTEX'' ''a'' ''b''"
  have wf: "list_all (wf_bit_constraint [''a'', ''b'']) [?c]"
    by (simp add: wf_bit_constraint_def pair_constraint_def typed_constraint_def upper_MUTEX)
  have sat: "satisfies [''a'', ''b''] k ?c = (\<not> (bit k 0 \<and> bit k 1))" for k
    by (simp add: satisfies_def flag_set_def pair_constraint_def typed_constraint_def upper_MUTEX)
  have 1: "enumerate_valid_masks (bit_model [''a'', ''b''] [?c] (Some 1)) = Inr []"
    using enumerate_valid_masks_spec [of "bit_model [''a'', ''b''] [?c] (Some 1)"]
    by (simp add: bit_model_def)
  have 2: "enumerate_valid_masks (bit_model [''a'', ''b''] [?c] (Some 2)) = Inr [0, 1, 2]"
    using enumerate_valid_masks_spec [of "bit_model [''a'', ''b''] [?c] (Some 2)"] wf
    by (simp add: bit_model_def sat upt4 bit_Suc)
  have 3: "enumerate_valid_masks (bit_model [''a'', ''b''] [?c] None) = Inr [0, 1, 2]"
    using enumerate_valid_masks_spec [of "bit_model [''a'', ''b''] [?c] None"] wf
    by (simp add: bit_model_def sat upt4 bit_Suc)
  from 1 2 3 show ?thesis by blast
qed








text \<open>
  C9. An enumeration that was skipped cannot be told from one that found nothing. The
  model with the single flag a and the constraint ONEOF([]) is within the limit (B = 1,
  limit 22), no mask satisfies its constraint, and \<open>enumerate_valid_masks\<close> returns the
  empty list for it: the value it returns for every model whose B exceeds the limit. The
  report of \<open>main\<close> then prints "Enumeration skipped" for it, as it does for a model that
  was skipped.
\<close>

theorem skipped_indistinguishable:
  "int (length (m_flags (bit_model [a] [oneof_constraint []] None)))
     \<le> limit_bits (bit_model [a] [oneof_constraint []] None) \<and>
   \<not> list_all (spec_holds [a] k) [oneof_constraint []] \<and>
   enumerate_valid_masks (bit_model [a] [oneof_constraint []] None) = Inr [] \<and>
   main_enumerate (bit_model [a] [oneof_constraint []] None)
     = Inr [''  Enumeration skipped (B>22).''] \<and>
   (limit_bits m < int (length (m_flags m)) \<longrightarrow>
      enumerate_valid_masks m = enumerate_valid_masks (bit_model [a] [oneof_constraint []] None) \<and>
      main_enumerate m = Inr [''  Enumeration skipped (B>'' @ str_int (limit_bits m) @ '').''])"
proof -
  let ?m = "bit_model [a] [oneof_constraint []] None"
  have lim: "limit_bits ?m = 22"
    by (simp add: bit_model_def limit_bits_def)
  have sh: "\<not> spec_holds [a] j (oneof_constraint [])" for j
    by (simp add: spec_holds_def oneof_constraint_def typed_constraint_def upper_ONEOF)
  have wf: "list_all (wf_bit_constraint (m_flags ?m)) (m_constraints ?m)"
    by (simp add: bit_model_def wf_bit_constraint_def oneof_constraint_def typed_constraint_def
        upper_ONEOF)
  have "enumerate_valid_masks ?m =
      Inr (filter (\<lambda>k. list_all (spec_holds (m_flags ?m) k) (m_constraints ?m))
            (map int [0 ..< 2 ^ length (m_flags ?m)]))"
    using wf lim by (intro enumerate_wf) (simp_all add: bit_model_def)
  then have e: "enumerate_valid_masks ?m = Inr []"
    by (simp add: bit_model_def sh)
  have s22: "str_int 22 = ''22''"
    by code_simp
  have r: "main_enumerate ?m = Inr [''  Enumeration skipped (B>22).'']"
    by (simp add: main_enumerate_def e lim s22)
  have skip: "enumerate_valid_masks m = enumerate_valid_masks ?m \<and>
      main_enumerate m = Inr [''  Enumeration skipped (B>'' @ str_int (limit_bits m) @ '').'']"
    if "limit_bits m < int (length (m_flags m))"
    using that by (simp add: main_enumerate_def enumerate_skip e)
  from lim sh e r skip show ?thesis
    by (simp add: bit_model_def)
qed

text \<open>
  Two flags with limit 1 are skipped, and get the result and the kind of report line of
  the one-flag model with ONEOF([]), which was enumerated.
\<close>

theorem skipped_indistinguishable_witness:
  "enumerate_valid_masks (bit_model [''a'', ''b''] [] (Some 1))
     = enumerate_valid_masks (bit_model [''a''] [oneof_constraint []] None) \<and>
   enumerate_valid_masks (bit_model [''a''] [oneof_constraint []] None) = Inr [] \<and>
   main_enumerate (bit_model [''a''] [oneof_constraint []] None)
     = Inr [''  Enumeration skipped (B>22).''] \<and>
   main_enumerate (bit_model [''a'', ''b''] [] (Some 1)) = Inr [''  Enumeration skipped (B>1).'']"
proof -
  have s1: "str_int 1 = ''1''"
    by code_simp
  show ?thesis
    using skipped_indistinguishable [of "''a''" 0 "bit_model [''a'', ''b''] [] (Some 1)"]
    by (simp add: bit_model_def limit_bits_def s1)
qed

section \<open>Unknown constraint types\<close>

text \<open>
  C1 as stated fails on the code: nothing validates the type tags when a model is loaded.
  The one-flag model with a constraint of type FOO is enumerated without any error, to
  both masks, and its bit-only SQL predicate is built, as TRUE.
\<close>

theorem unknown_type_accepted:
  "enumerate_valid_masks (bit_model [''a''] [typed_constraint ''FOO''] None) = Inr [0, 1] \<and>
   predicate_sql_for_bit_constraints [''a''] [typed_constraint ''FOO''] ''mask'' = Inr ''TRUE''"
  by code_simp

text \<open>
  C1, amended. A constraint whose type tag is, in upper case, none of IMPLIES, EQUIV,
  MUTEX, ONEOF, FORBID_WHEN, FORBID_IF_SQL is skipped by the enumerator and by the builder
  of the bit-only SQL predicate: removing every such constraint from a model changes
  neither the result of \<open>enumerate_valid_masks\<close> (masks or error) nor the result of
  \<open>predicate_sql_for_bit_constraints\<close>.
\<close>

theorem unknown_type_ignored:
  "enumerate_valid_masks (m\<lparr>m_constraints := filter (\<lambda>c. \<not> unknown_type c) (m_constraints m)\<rparr>)
     = enumerate_valid_masks m \<and>
   predicate_sql_for_bit_constraints fs (filter (\<lambda>c. \<not> unknown_type c) cs) e
     = predicate_sql_for_bit_constraints fs cs e"
proof -
  have "ok (m\<lparr>m_constraints := filter (\<lambda>c. \<not> unknown_type c) (m_constraints m)\<rparr>) = ok m"
    by (rule ext) (simp add: ok_def ok_loop_drop_unknown)
  then show ?thesis
    by (simp add: enumerate_valid_masks_def limit_bits_def predicate_sql_for_bit_constraints_def
        preds_loop_drop_unknown Let_def cong: if_cong)
qed


section \<open>Equivalence reduction\<close>

text \<open>
  \<open>scc_equivalence\<close>. The dicts \<open>adj\<close> and \<open>implies\<close> are association lists from a
  flag to its set of neighbours, a set being a list without repetition. Python iterates a
  set of strings in an order that depends on the hashes of the run, so the model takes
  the iteration order as a parameter \<open>iter\<close>: \<open>for y in s\<close> runs through \<open>iter s\<close>.
  \<open>adj[a].add(b)\<close> raises \<open>KeyError\<close> when \<open>a\<close> is not a declared flag;
  \<open>implies.setdefault(a, set()).add(b)\<close> never raises. The stack of the traversal has its
  top at the head of the list.
\<close>

type_synonym adjacency = "(string \<times> string list) list"

definition set_add :: "string \<Rightarrow> string list \<Rightarrow> string list" where
  "set_add b vs = (if b \<in> set vs then vs else vs @ [b])"

definition adj_add :: "adjacency \<Rightarrow> string \<Rightarrow> string \<Rightarrow> py_error + adjacency" where
  "adj_add adj a b =
     ebind (getitem (map_of adj a)) (\<lambda>vs. Inr (AList.update a (set_add b vs) adj))"

definition implies_add :: "adjacency \<Rightarrow> string \<Rightarrow> string \<Rightarrow> adjacency" where
  "implies_add imp a b =
     (case map_of imp a of
        None \<Rightarrow> AList.update a (set_add b []) imp
      | Some vs \<Rightarrow> AList.update a (set_add b vs) imp)"

definition build_step :: "adjacency \<times> adjacency \<Rightarrow> constraint \<Rightarrow> py_error + (adjacency \<times> adjacency)" where
  "build_step st c =
     (case st of (adj, imp) \<Rightarrow>
     ebind (getitem (c_type c)) (\<lambda>ty. let t = upper ty in
       if t = ''EQUIV'' then
         ebind (getitem (c_a c)) (\<lambda>a. ebind (getitem (c_b c)) (\<lambda>b.
         ebind (adj_add adj a b) (\<lambda>adj1. ebind (adj_add adj1 b a) (\<lambda>adj2. Inr (adj2, imp)))))
       else if t = ''IMPLIES'' then
         ebind (getitem (c_a c)) (\<lambda>a. ebind (getitem (c_b c)) (\<lambda>b.
           Inr (adj, implies_add imp a b)))
       else Inr (adj, imp)))"

fun build_loop :: "adjacency \<times> adjacency \<Rightarrow> constraint list \<Rightarrow> py_error + (adjacency \<times> adjacency)" where
  "build_loop st [] = Inr st"
| "build_loop st (c # cs) = ebind (build_step st c) (\<lambda>st'. build_loop st' cs)"

fun mutual_inner :: "adjacency \<Rightarrow> string \<Rightarrow> adjacency \<Rightarrow> string list \<Rightarrow> py_error + adjacency" where
  "mutual_inner imp a adj [] = Inr adj"
| "mutual_inner imp a adj (b # bs) =
     (if (case map_of imp b of None \<Rightarrow> False | Some vs \<Rightarrow> a \<in> set vs)
      then ebind (adj_add adj a b) (\<lambda>adj1. ebind (adj_add adj1 b a) (\<lambda>adj2.
             mutual_inner imp a adj2 bs))
      else mutual_inner imp a adj bs)"

fun mutual_loop ::
    "(string list \<Rightarrow> string list) \<Rightarrow> adjacency \<Rightarrow> adjacency \<Rightarrow> adjacency \<Rightarrow> py_error + adjacency" where
  "mutual_loop iter imp adj [] = Inr adj"
| "mutual_loop iter imp adj ((a, bs) # items) =
     ebind (mutual_inner imp a adj (iter bs)) (\<lambda>adj'. mutual_loop iter imp adj' items)"

function dfs ::
    "(string list \<Rightarrow> string list) \<Rightarrow> adjacency \<Rightarrow> string list \<Rightarrow> string set \<Rightarrow> string set
      \<Rightarrow> py_error + (string set \<times> string set)" where
  "dfs iter adj [] seen cmp = Inr (seen, cmp)"
| "dfs iter adj (x # stack) seen cmp =
     (if x \<in> seen then dfs iter adj stack seen cmp
      else (case map_of adj x of
              None \<Rightarrow> Inl KeyError
            | Some ys \<Rightarrow>
                dfs iter adj (rev (filter (\<lambda>y. y \<notin> insert x seen) (iter ys)) @ stack)
                  (insert x seen) (insert x cmp)))"
  by pat_completeness auto
termination
proof (relation "measures [\<lambda>(iter, adj, stack, seen, cmp). card (fst ` set adj - seen),
                           \<lambda>(iter, adj, stack, seen, cmp). length stack]", goal_cases)
  case 1
  then show ?case by simp
next
  case (2 iter adj x stack seen cmp)
  then show ?case by simp
next
  case (3 iter adj x stack seen cmp ys)
  then have "x \<in> fst ` set adj"
    by (metis domI dom_map_of_conv_image_fst)
  with 3 have "card (fst ` set adj - insert x seen) < card (fst ` set adj - seen)"
    by (intro psubset_card_mono) auto
  then show ?case by simp
qed

fun comps_loop ::
    "(string list \<Rightarrow> string list) \<Rightarrow> adjacency \<Rightarrow> string list \<Rightarrow> string set \<Rightarrow> string set list
      \<Rightarrow> py_error + string set list" where
  "comps_loop iter adj [] seen comps = Inr comps"
| "comps_loop iter adj (f # fs) seen comps =
     (if f \<in> seen then comps_loop iter adj fs seen comps
      else ebind (dfs iter adj [f] seen {}) (\<lambda>(seen', cmp).
             comps_loop iter adj fs seen' (comps @ [cmp])))"

definition scc_equivalence ::
    "(string list \<Rightarrow> string list) \<Rightarrow> string list \<Rightarrow> constraint list \<Rightarrow> py_error + string set list" where
  "scc_equivalence iter fs cs =
     ebind (build_loop (fold (\<lambda>f adj. AList.update f [] adj) fs [], []) cs) (\<lambda>(adj, imp).
     ebind (mutual_loop iter imp adj imp) (\<lambda>adj'.
       comps_loop iter adj' fs {} []))"

definition compute_B_eff ::
    "(string list \<Rightarrow> string list) \<Rightarrow> string list \<Rightarrow> constraint list \<Rightarrow> py_error + int" where
  "compute_B_eff iter fs cs = ebind (scc_equivalence iter fs cs) (\<lambda>comps. Inr (int (length comps)))"


text \<open>
  The graph of the specification: an undirected edge for each EQUIV(a, b), and one for
  each pair of flags with both IMPLIES(a, b) and IMPLIES(b, a). \<open>component E f\<close> is the
  connected component of \<open>f\<close>, and \<open>classes_from E fs seen\<close> lists the components of the
  flags of \<open>fs\<close> outside \<open>seen\<close>, each once, in the order of their first flag.
  \<open>adj_rel\<close> reads an adjacency dict as a relation.
\<close>

definition adj_rel :: "adjacency \<Rightarrow> (string \<times> string) set" where
  "adj_rel adj = {(x, y). \<exists>vs. map_of adj x = Some vs \<and> y \<in> set vs}"

definition is_equiv :: "constraint \<Rightarrow> string \<Rightarrow> string \<Rightarrow> bool" where
  "is_equiv c a b =
     (case c_type c of None \<Rightarrow> False
      | Some ty \<Rightarrow> upper ty = ''EQUIV'' \<and> c_a c = Some a \<and> c_b c = Some b)"

definition is_implies :: "constraint \<Rightarrow> string \<Rightarrow> string \<Rightarrow> bool" where
  "is_implies c a b =
     (case c_type c of None \<Rightarrow> False
      | Some ty \<Rightarrow> upper ty = ''IMPLIES'' \<and> c_a c = Some a \<and> c_b c = Some b)"

definition equiv_edges :: "constraint list \<Rightarrow> (string \<times> string) set" where
  "equiv_edges cs = {(a, b). \<exists>c \<in> set cs. is_equiv c a b \<or> is_equiv c b a}"

definition implies_edges :: "constraint list \<Rightarrow> (string \<times> string) set" where
  "implies_edges cs = {(a, b). \<exists>c \<in> set cs. is_implies c a b}"

definition spec_edges :: "constraint list \<Rightarrow> (string \<times> string) set" where
  "spec_edges cs = equiv_edges cs \<union> (implies_edges cs \<inter> (implies_edges cs)\<inverse>)"


lemma keys_map_of: "a \<in> fst ` set adj \<Longrightarrow> \<exists>vs. map_of adj a = Some vs"
  by (cases "map_of adj a") (simp_all add: map_of_eq_None_iff)

lemma set_set_add [simp]: "set (set_add b vs) = insert b (set vs)"
  by (auto simp: set_add_def)


lemma adj_rel_update_key:
  assumes "map_of adj a = Some vs"
  shows "adj_rel (AList.update a (set_add b vs) adj) = insert (a, b) (adj_rel adj)"
proof -
  have m: "map_of (AList.update a (set_add b vs) adj) = (map_of adj)(a \<mapsto> set_add b vs)"
    by (rule update_conv')
  show ?thesis
  proof (rule set_eqI)
    fix p :: "string \<times> string"
    obtain x y where p: "p = (x, y)" by (cases p)
    show "p \<in> adj_rel (AList.update a (set_add b vs) adj) \<longleftrightarrow> p \<in> insert (a, b) (adj_rel adj)"
    proof (cases "x = a")
      case True
      then show ?thesis
        using assms by (auto simp: p adj_rel_def m)
    next
      case False
      then show ?thesis
        by (simp add: p adj_rel_def m)
    qed
  qed
qed



lemma adj_add_ok:
  assumes "a \<in> fst ` set adj"
  shows "\<exists>adj'. adj_add adj a b = Inr adj' \<and> fst ` set adj' = fst ` set adj
           \<and> adj_rel adj' = insert (a, b) (adj_rel adj)"
proof -
  from keys_map_of [OF assms] obtain vs where vs: "map_of adj a = Some vs" ..
  let ?adj' = "AList.update a (set_add b vs) adj"
  have 1: "adj_add adj a b = Inr ?adj'"
    unfolding adj_add_def vs by simp
  have "fst ` set ?adj' = {a} \<union> fst ` set adj"
    by (rule dom_update)
  also have "\<dots> = fst ` set adj"
    using assms by blast
  finally have 2: "fst ` set ?adj' = fst ` set adj" .
  have 3: "adj_rel ?adj' = insert (a, b) (adj_rel adj)"
    using vs by (rule adj_rel_update_key)
  show ?thesis
  proof (intro exI conjI)
    show "adj_add adj a b = Inr ?adj'" by (rule 1)
    show "fst ` set ?adj' = fst ` set adj" by (rule 2)
    show "adj_rel ?adj' = insert (a, b) (adj_rel adj)" by (rule 3)
  qed
qed


lemma adj_add_both:
  assumes "a \<in> fst ` set adj" "b \<in> fst ` set adj"
  shows "\<exists>adj2. ebind (adj_add adj a b) (\<lambda>adj1. ebind (adj_add adj1 b a) (\<lambda>adj2. k adj2))
             = k adj2
           \<and> fst ` set adj2 = fst ` set adj
           \<and> adj_rel adj2 = insert (b, a) (insert (a, b) (adj_rel adj))"
proof -
  from adj_add_ok [OF assms(1), of b] obtain adj1 where
    1: "adj_add adj a b = Inr adj1" "fst ` set adj1 = fst ` set adj"
       "adj_rel adj1 = insert (a, b) (adj_rel adj)"
    by blast
  from assms(2) have "b \<in> fst ` set adj1"
    unfolding 1(2) .
  from adj_add_ok [OF this, of a] obtain adj2 where
    2: "adj_add adj1 b a = Inr adj2" "fst ` set adj2 = fst ` set adj1"
       "adj_rel adj2 = insert (b, a) (adj_rel adj1)"
    by blast
  show ?thesis
  proof (intro exI conjI)
    show "ebind (adj_add adj a b) (\<lambda>adj1. ebind (adj_add adj1 b a) (\<lambda>adj2. k adj2)) = k adj2"
      unfolding 1(1) ebind_Inr 2(1) ..
    show "fst ` set adj2 = fst ` set adj"
      unfolding 2(2) 1(2) ..
    show "adj_rel adj2 = insert (b, a) (insert (a, b) (adj_rel adj))"
      unfolding 2(3) 1(3) ..
  qed
qed

lemma adj_rel_update_fresh:
  assumes "map_of imp a = None"
  shows "adj_rel (AList.update a (set_add b []) imp) = insert (a, b) (adj_rel imp)"
proof -
  have m: "map_of (AList.update a (set_add b []) imp) = (map_of imp)(a \<mapsto> set_add b [])"
    by (rule update_conv')
  show ?thesis
  proof (rule set_eqI)
    fix p :: "string \<times> string"
    obtain x y where p: "p = (x, y)" by (cases p)
    show "p \<in> adj_rel (AList.update a (set_add b []) imp) \<longleftrightarrow> p \<in> insert (a, b) (adj_rel imp)"
    proof (cases "x = a")
      case True
      then show ?thesis
        using assms by (auto simp: p adj_rel_def m)
    next
      case False
      then show ?thesis
        by (simp add: p adj_rel_def m)
    qed
  qed
qed

lemma implies_add_rel: "adj_rel (implies_add imp a b) = insert (a, b) (adj_rel imp)"
proof (cases "map_of imp a")
  case None
  then show ?thesis
    unfolding implies_add_def by (simp add: adj_rel_update_fresh)
next
  case (Some vs)
  then show ?thesis
    unfolding implies_add_def by (simp add: adj_rel_update_key)
qed

lemma implies_add_distinct:
  "distinct (map fst imp) \<Longrightarrow> distinct (map fst (implies_add imp a b))"
  by (cases "map_of imp a") (simp_all add: implies_add_def distinct_update)


lemma wf_bit_constraint_type:
  "wf_bit_constraint fs c \<Longrightarrow> \<exists>ty. c_type c = Some ty"
  by (cases "c_type c") (simp_all add: wf_bit_constraint_def)

lemma wf_bit_constraint_pair:
  assumes "wf_bit_constraint fs c" "c_type c = Some ty"
    "upper ty = ''IMPLIES'' \<or> upper ty = ''EQUIV'' \<or> upper ty = ''MUTEX''"
  shows "\<exists>a b. c_a c = Some a \<and> c_b c = Some b \<and> a \<in> set fs \<and> b \<in> set fs"
  using assms
  by (cases "c_a c"; cases "c_b c") (auto simp: wf_bit_constraint_def)

lemma edges_of_equiv:
  assumes "c_type c = Some ty" "upper ty = ''EQUIV''" "c_a c = Some a" "c_b c = Some b"
  shows "equiv_edges [c] = {(a, b), (b, a)}" "implies_edges [c] = {}"
  using assms by (auto simp: equiv_edges_def implies_edges_def is_equiv_def is_implies_def)

lemma edges_of_implies:
  assumes "c_type c = Some ty" "upper ty = ''IMPLIES''" "c_a c = Some a" "c_b c = Some b"
  shows "equiv_edges [c] = {}" "implies_edges [c] = {(a, b)}"
  using assms by (auto simp: equiv_edges_def implies_edges_def is_equiv_def is_implies_def)

lemma edges_of_other:
  assumes "c_type c = Some ty" "upper ty \<noteq> ''EQUIV''" "upper ty \<noteq> ''IMPLIES''"
  shows "equiv_edges [c] = {}" "implies_edges [c] = {}"
  using assms by (auto simp: equiv_edges_def implies_edges_def is_equiv_def is_implies_def)

lemma build_step_ok:
  assumes "wf_bit_constraint fs c" "fst ` set adj = set fs" "distinct (map fst imp)"
  shows "\<exists>adj' imp'. build_step (adj, imp) c = Inr (adj', imp') \<and> fst ` set adj' = set fs
           \<and> distinct (map fst imp')
           \<and> adj_rel adj' = adj_rel adj \<union> equiv_edges [c]
           \<and> adj_rel imp' = adj_rel imp \<union> implies_edges [c]"
proof -
  from wf_bit_constraint_type [OF assms(1)] obtain ty where ty: "c_type c = Some ty" ..
  consider (equiv) "upper ty = ''EQUIV''" | (implies) "upper ty = ''IMPLIES''"
    | (other) "upper ty \<noteq> ''EQUIV''" "upper ty \<noteq> ''IMPLIES''"
    by blast
  then show ?thesis
  proof cases
    case equiv
    from wf_bit_constraint_pair [OF assms(1) ty] equiv obtain a b where
      ab: "c_a c = Some a" "c_b c = Some b" "a \<in> set fs" "b \<in> set fs"
      by blast
    have ka: "a \<in> fst ` set adj" and kb: "b \<in> fst ` set adj"
      unfolding assms(2) by (rule ab(3), rule ab(4))
    from adj_add_both [OF ka kb, of "\<lambda>adj2. Inr (adj2, imp)"] obtain adj2 where
      a2: "ebind (adj_add adj a b) (\<lambda>adj1. ebind (adj_add adj1 b a) (\<lambda>adj2. Inr (adj2, imp)))
             = Inr (adj2, imp)"
        "fst ` set adj2 = fst ` set adj"
        "adj_rel adj2 = insert (b, a) (insert (a, b) (adj_rel adj))"
      by blast
    note e = edges_of_equiv [OF ty equiv ab(1,2)]
    have r: "build_step (adj, imp) c = Inr (adj2, imp)"
      unfolding build_step_def by (simp add: ty equiv ab(1,2) a2(1))
    show ?thesis
    proof (intro exI conjI)
      show "build_step (adj, imp) c = Inr (adj2, imp)" by (rule r)
      show "fst ` set adj2 = set fs" unfolding a2(2) by (rule assms(2))
      show "distinct (map fst imp)" by (rule assms(3))
      show "adj_rel adj2 = adj_rel adj \<union> equiv_edges [c]" unfolding a2(3) e by blast
      show "adj_rel imp = adj_rel imp \<union> implies_edges [c]" unfolding e by simp
    qed
  next
    case implies
    from wf_bit_constraint_pair [OF assms(1) ty] implies obtain a b where
      ab: "c_a c = Some a" "c_b c = Some b"
      by blast
    note e = edges_of_implies [OF ty implies ab]
    have r: "build_step (adj, imp) c = Inr (adj, implies_add imp a b)"
      unfolding build_step_def by (simp add: ty implies ab)
    show ?thesis
    proof (intro exI conjI)
      show "build_step (adj, imp) c = Inr (adj, implies_add imp a b)" by (rule r)
      show "fst ` set adj = set fs" by (rule assms(2))
      show "distinct (map fst (implies_add imp a b))"
        using assms(3) by (rule implies_add_distinct)
      show "adj_rel adj = adj_rel adj \<union> equiv_edges [c]" unfolding e by simp
      show "adj_rel (implies_add imp a b) = adj_rel imp \<union> implies_edges [c]"
        unfolding e implies_add_rel by simp
    qed
  next
    case other
    note e = edges_of_other [OF ty other]
    have r: "build_step (adj, imp) c = Inr (adj, imp)"
      unfolding build_step_def by (simp add: ty other)
    show ?thesis
    proof (intro exI conjI)
      show "build_step (adj, imp) c = Inr (adj, imp)" by (rule r)
      show "fst ` set adj = set fs" by (rule assms(2))
      show "distinct (map fst imp)" by (rule assms(3))
      show "adj_rel adj = adj_rel adj \<union> equiv_edges [c]" unfolding e by simp
      show "adj_rel imp = adj_rel imp \<union> implies_edges [c]" unfolding e by simp
    qed
  qed
qed

lemma equiv_edges_Cons: "equiv_edges (c # cs) = equiv_edges [c] \<union> equiv_edges cs"
  by (auto simp: equiv_edges_def)

lemma implies_edges_Cons: "implies_edges (c # cs) = implies_edges [c] \<union> implies_edges cs"
  by (auto simp: implies_edges_def)

lemma build_loop_ok:
  assumes "list_all (wf_bit_constraint fs) cs" "fst ` set adj = set fs" "distinct (map fst imp)"
  shows "\<exists>adj' imp'. build_loop (adj, imp) cs = Inr (adj', imp') \<and> fst ` set adj' = set fs
           \<and> distinct (map fst imp')
           \<and> adj_rel adj' = adj_rel adj \<union> equiv_edges cs
           \<and> adj_rel imp' = adj_rel imp \<union> implies_edges cs"
  using assms
proof (induction cs arbitrary: adj imp)
  case Nil
  show ?case
  proof (intro exI conjI)
    show "build_loop (adj, imp) [] = Inr (adj, imp)" by simp
    show "fst ` set adj = set fs" by (rule Nil(2))
    show "distinct (map fst imp)" by (rule Nil(3))
    show "adj_rel adj = adj_rel adj \<union> equiv_edges []" by (simp add: equiv_edges_def)
    show "adj_rel imp = adj_rel imp \<union> implies_edges []" by (simp add: implies_edges_def)
  qed
next
  case (Cons c cs)
  from Cons.prems(1) have wf: "wf_bit_constraint fs c" "list_all (wf_bit_constraint fs) cs"
    by simp_all
  from build_step_ok [OF wf(1) Cons.prems(2,3)] obtain adj1 imp1 where
    1: "build_step (adj, imp) c = Inr (adj1, imp1)" "fst ` set adj1 = set fs"
       "distinct (map fst imp1)" "adj_rel adj1 = adj_rel adj \<union> equiv_edges [c]"
       "adj_rel imp1 = adj_rel imp \<union> implies_edges [c]"
    by blast
  from Cons.IH [OF wf(2) 1(2) 1(3)] obtain adj2 imp2 where
    2: "build_loop (adj1, imp1) cs = Inr (adj2, imp2)" "fst ` set adj2 = set fs"
       "distinct (map fst imp2)" "adj_rel adj2 = adj_rel adj1 \<union> equiv_edges cs"
       "adj_rel imp2 = adj_rel imp1 \<union> implies_edges cs"
    by blast
  show ?case
  proof (intro exI conjI)
    show "build_loop (adj, imp) (c # cs) = Inr (adj2, imp2)"
      by (simp add: 1(1) 2(1))
    show "fst ` set adj2 = set fs" by (rule 2(2))
    show "distinct (map fst imp2)" by (rule 2(3))
    show "adj_rel adj2 = adj_rel adj \<union> equiv_edges (c # cs)"
      unfolding equiv_edges_Cons [of c cs] 2(4) 1(4) by (simp add: Un_assoc)
    show "adj_rel imp2 = adj_rel imp \<union> implies_edges (c # cs)"
      unfolding implies_edges_Cons [of c cs] 2(5) 1(5) by (simp add: Un_assoc)
  qed
qed


definition mutual_pairs :: "adjacency \<Rightarrow> string \<Rightarrow> string list \<Rightarrow> (string \<times> string) set" where
  "mutual_pairs imp a bs = {(x, b). x = a \<and> b \<in> set bs \<and> (b, a) \<in> adj_rel imp}"

lemma mutual_test:
  "(case map_of imp b of None \<Rightarrow> False | Some vs \<Rightarrow> a \<in> set vs) \<longleftrightarrow> (b, a) \<in> adj_rel imp"
  by (cases "map_of imp b") (simp_all add: adj_rel_def)

lemma mutual_pairs_Nil: "mutual_pairs imp a [] = {}"
  by (simp add: mutual_pairs_def)

lemma mutual_pairs_Cons:
  "mutual_pairs imp a (b # bs) =
     (if (b, a) \<in> adj_rel imp then insert (a, b) (mutual_pairs imp a bs)
      else mutual_pairs imp a bs)"
  by (auto simp: mutual_pairs_def)

lemma mutual_inner_ok:
  assumes "fst ` set adj = K" "\<forall>b \<in> set bs. (b, a) \<in> adj_rel imp \<longrightarrow> a \<in> K \<and> b \<in> K"
  shows "\<exists>adj'. mutual_inner imp a adj bs = Inr adj' \<and> fst ` set adj' = K
           \<and> adj_rel adj' = adj_rel adj \<union> (mutual_pairs imp a bs \<union> (mutual_pairs imp a bs)\<inverse>)"
  using assms
proof (induction bs arbitrary: adj)
  case Nil
  show ?case
  proof (intro exI conjI)
    show "mutual_inner imp a adj [] = Inr adj" by simp
    show "fst ` set adj = K" by (rule Nil(1))
    show "adj_rel adj = adj_rel adj \<union> (mutual_pairs imp a [] \<union> (mutual_pairs imp a [])\<inverse>)"
      by (simp add: mutual_pairs_Nil)
  qed
next
  case (Cons b bs)
  have rest: "\<forall>b' \<in> set bs. (b', a) \<in> adj_rel imp \<longrightarrow> a \<in> K \<and> b' \<in> K"
    using Cons.prems(2) by simp
  show ?case
  proof (cases "(b, a) \<in> adj_rel imp")
    case True
    with Cons.prems(2) have "a \<in> K" "b \<in> K" by simp_all
    then have ka: "a \<in> fst ` set adj" and kb: "b \<in> fst ` set adj"
      unfolding Cons.prems(1) .
    from adj_add_both [OF ka kb, of "\<lambda>adj2. mutual_inner imp a adj2 bs"] obtain adj2 where
      a2: "ebind (adj_add adj a b) (\<lambda>adj1. ebind (adj_add adj1 b a) (\<lambda>adj2.
             mutual_inner imp a adj2 bs)) = mutual_inner imp a adj2 bs"
        "fst ` set adj2 = fst ` set adj"
        "adj_rel adj2 = insert (b, a) (insert (a, b) (adj_rel adj))"
      by blast
    have k2: "fst ` set adj2 = K"
      unfolding a2(2) by (rule Cons.prems(1))
    from Cons.IH [OF k2 rest] obtain adj' where
      r: "mutual_inner imp a adj2 bs = Inr adj'" "fst ` set adj' = K"
         "adj_rel adj' = adj_rel adj2 \<union> (mutual_pairs imp a bs \<union> (mutual_pairs imp a bs)\<inverse>)"
      by blast
    show ?thesis
    proof (intro exI conjI)
      show "mutual_inner imp a adj (b # bs) = Inr adj'"
        using True by (simp add: mutual_test a2(1) r(1))
      show "fst ` set adj' = K" by (rule r(2))
      show "adj_rel adj' =
          adj_rel adj \<union> (mutual_pairs imp a (b # bs) \<union> (mutual_pairs imp a (b # bs))\<inverse>)"
        unfolding r(3) a2(3) mutual_pairs_Cons using True by auto
    qed
  next
    case False
    from Cons.IH [OF Cons.prems(1) rest] obtain adj' where
      r: "mutual_inner imp a adj bs = Inr adj'" "fst ` set adj' = K"
         "adj_rel adj' = adj_rel adj \<union> (mutual_pairs imp a bs \<union> (mutual_pairs imp a bs)\<inverse>)"
      by blast
    show ?thesis
    proof (intro exI conjI)
      show "mutual_inner imp a adj (b # bs) = Inr adj'"
        using False by (simp add: mutual_test r(1))
      show "fst ` set adj' = K" by (rule r(2))
      show "adj_rel adj' =
          adj_rel adj \<union> (mutual_pairs imp a (b # bs) \<union> (mutual_pairs imp a (b # bs))\<inverse>)"
        unfolding r(3) mutual_pairs_Cons using False by simp
    qed
  qed
qed

lemma mutual_pairs_cong: "set bs = set bs' \<Longrightarrow> mutual_pairs imp a bs = mutual_pairs imp a bs'"
  by (simp add: mutual_pairs_def)

definition all_mutual :: "adjacency \<Rightarrow> adjacency \<Rightarrow> (string \<times> string) set" where
  "all_mutual imp items = {(a, b). \<exists>bs. (a, bs) \<in> set items \<and> (a, b) \<in> mutual_pairs imp a bs}"

lemma all_mutual_Nil: "all_mutual imp [] = {}"
  by (simp add: all_mutual_def)

lemma all_mutual_Cons:
  "all_mutual imp ((a, bs) # items) = mutual_pairs imp a bs \<union> all_mutual imp items"
  by (auto simp: all_mutual_def mutual_pairs_def)

lemma mutual_loop_ok:
  assumes "fst ` set adj = K"
    "\<forall>(a, bs) \<in> set items. \<forall>b \<in> set bs. (b, a) \<in> adj_rel imp \<longrightarrow> a \<in> K \<and> b \<in> K"
    "\<forall>xs. set (iter xs) = set xs"
  shows "\<exists>adj'. mutual_loop iter imp adj items = Inr adj' \<and> fst ` set adj' = K
           \<and> adj_rel adj' = adj_rel adj \<union> (all_mutual imp items \<union> (all_mutual imp items)\<inverse>)"
  using assms(1,2)
proof (induction items arbitrary: adj)
  case Nil
  show ?case
  proof (intro exI conjI)
    show "mutual_loop iter imp adj [] = Inr adj" by simp
    show "fst ` set adj = K" by (rule Nil(1))
    show "adj_rel adj = adj_rel adj \<union> (all_mutual imp [] \<union> (all_mutual imp [])\<inverse>)"
      by (simp add: all_mutual_Nil)
  qed
next
  case (Cons item items)
  obtain a bs where item: "item = (a, bs)" by (cases item)
  have here: "\<forall>b \<in> set (iter bs). (b, a) \<in> adj_rel imp \<longrightarrow> a \<in> K \<and> b \<in> K"
    using Cons.prems(2) by (simp add: item assms(3))
  have rest: "\<forall>(a, bs) \<in> set items. \<forall>b \<in> set bs. (b, a) \<in> adj_rel imp \<longrightarrow> a \<in> K \<and> b \<in> K"
    using Cons.prems(2) by simp
  from mutual_inner_ok [OF Cons.prems(1) here] obtain adj1 where
    1: "mutual_inner imp a adj (iter bs) = Inr adj1" "fst ` set adj1 = K"
       "adj_rel adj1 = adj_rel adj \<union>
          (mutual_pairs imp a (iter bs) \<union> (mutual_pairs imp a (iter bs))\<inverse>)"
    by blast
  from Cons.IH [OF 1(2) rest] obtain adj' where
    2: "mutual_loop iter imp adj1 items = Inr adj'" "fst ` set adj' = K"
       "adj_rel adj' = adj_rel adj1 \<union> (all_mutual imp items \<union> (all_mutual imp items)\<inverse>)"
    by blast
  have mp: "mutual_pairs imp a (iter bs) = mutual_pairs imp a bs"
    by (rule mutual_pairs_cong) (simp add: assms(3))
  show ?case
  proof (intro exI conjI)
    show "mutual_loop iter imp adj (item # items) = Inr adj'"
      by (simp add: item 1(1) 2(1))
    show "fst ` set adj' = K" by (rule 2(2))
    show "adj_rel adj' =
        adj_rel adj \<union> (all_mutual imp (item # items) \<union> (all_mutual imp (item # items))\<inverse>)"
      unfolding 2(3) 1(3) item all_mutual_Cons mp by auto
  qed
qed

lemma all_mutual_self:
  assumes "distinct (map fst imp)"
  shows "all_mutual imp imp = adj_rel imp \<inter> (adj_rel imp)\<inverse>"
proof -
  have "(a, bs) \<in> set imp \<longleftrightarrow> map_of imp a = Some bs" for a bs
    using assms by simp
  then show ?thesis
    by (auto simp: all_mutual_def mutual_pairs_def adj_rel_def)
qed


lemma adj_rel_Image: "map_of adj x = Some ys \<Longrightarrow> adj_rel adj `` {x} = set ys"
  by (auto simp: adj_rel_def)

lemma dfs_ok:
  shows "\<forall>xs. set (iter xs) = set xs \<Longrightarrow> adj_rel adj \<subseteq> UNIV \<times> fst ` set adj \<Longrightarrow>
     set stack \<subseteq> fst ` set adj \<Longrightarrow>
     \<exists>seen' cmp'. dfs iter adj stack seen cmp = Inr (seen', cmp') \<and> seen \<subseteq> seen'
        \<and> cmp' = cmp \<union> (seen' - seen) \<and> set stack \<subseteq> seen'
        \<and> seen' - seen \<subseteq> (adj_rel adj)\<^sup>* `` set stack
        \<and> (\<forall>z \<in> seen' - seen. adj_rel adj `` {z} \<subseteq> seen')"
proof (induction iter adj stack seen cmp rule: dfs.induct)
  case (1 iter adj seen cmp)
  show ?case
    by (rule exI [of _ seen], rule exI [of _ cmp]) simp
next
  case (2 iter adj x stack seen cmp)
  note it = "2.prems"(1) and rng = "2.prems"(2)
  show ?case
  proof (cases "x \<in> seen")
    case True
    from "2.prems"(3) have st: "set stack \<subseteq> fst ` set adj" by simp
    from "2.IH"(1) [OF True it rng st] obtain seen' cmp' where
      r: "dfs iter adj stack seen cmp = Inr (seen', cmp')" "seen \<subseteq> seen'"
         "cmp' = cmp \<union> (seen' - seen)" "set stack \<subseteq> seen'"
         "seen' - seen \<subseteq> (adj_rel adj)\<^sup>* `` set stack"
         "\<forall>z \<in> seen' - seen. adj_rel adj `` {z} \<subseteq> seen'"
      by blast
    show ?thesis
    proof (intro exI conjI)
      show "dfs iter adj (x # stack) seen cmp = Inr (seen', cmp')"
        using True r(1) by simp
      show "seen \<subseteq> seen'" by (rule r(2))
      show "cmp' = cmp \<union> (seen' - seen)" by (rule r(3))
      show "set (x # stack) \<subseteq> seen'" using True r(2) r(4) by auto
      show "seen' - seen \<subseteq> (adj_rel adj)\<^sup>* `` set (x # stack)" using r(5) by auto
      show "\<forall>z \<in> seen' - seen. adj_rel adj `` {z} \<subseteq> seen'" by (rule r(6))
    qed
  next
    case False
    from "2.prems"(3) have xk: "x \<in> fst ` set adj" by simp
    from keys_map_of [OF xk] obtain ys where ys: "map_of adj x = Some ys" ..
    note E = adj_rel_Image [OF ys]
    let ?seen1 = "insert x seen"
    let ?stack' = "rev (filter (\<lambda>y. y \<notin> ?seen1) (iter ys)) @ stack"
    have sys: "set ys \<subseteq> fst ` set adj"
      using rng E by blast
    have st': "set ?stack' \<subseteq> fst ` set adj"
      using sys "2.prems"(3) it by auto
    from "2.IH"(2) [OF False ys it rng st'] obtain seen' cmp' where
      r: "dfs iter adj ?stack' ?seen1 (insert x cmp) = Inr (seen', cmp')" "?seen1 \<subseteq> seen'"
         "cmp' = insert x cmp \<union> (seen' - ?seen1)" "set ?stack' \<subseteq> seen'"
         "seen' - ?seen1 \<subseteq> (adj_rel adj)\<^sup>* `` set ?stack'"
         "\<forall>z \<in> seen' - ?seen1. adj_rel adj `` {z} \<subseteq> seen'"
      by blast
    have sub: "set ?stack' \<subseteq> set ys \<union> set stack"
      using it by auto
    have reach: "(adj_rel adj)\<^sup>* `` set ?stack' \<subseteq> (adj_rel adj)\<^sup>* `` set (x # stack)"
    proof
      fix z assume "z \<in> (adj_rel adj)\<^sup>* `` set ?stack'"
      then obtain y where y: "y \<in> set ?stack'" "(y, z) \<in> (adj_rel adj)\<^sup>*" by blast
      from y(1) sub have "y \<in> set ys \<or> y \<in> set stack" by blast
      then show "z \<in> (adj_rel adj)\<^sup>* `` set (x # stack)"
      proof
        assume "y \<in> set ys"
        with E have "(x, y) \<in> adj_rel adj" by blast
        from this y(2) have "(x, z) \<in> (adj_rel adj)\<^sup>*" by (rule converse_rtrancl_into_rtrancl)
        then show ?thesis by auto
      next
        assume "y \<in> set stack"
        with y(2) show ?thesis by auto
      qed
    qed
    show ?thesis
    proof (intro exI conjI)
      show "dfs iter adj (x # stack) seen cmp = Inr (seen', cmp')"
        using False ys r(1) by simp
      show "seen \<subseteq> seen'" using r(2) by blast
      show "cmp' = cmp \<union> (seen' - seen)" using r(2) r(3) False by blast
      show "set (x # stack) \<subseteq> seen'" using r(2) r(4) by auto
      show "seen' - seen \<subseteq> (adj_rel adj)\<^sup>* `` set (x # stack)"
      proof
        fix z assume z: "z \<in> seen' - seen"
        show "z \<in> (adj_rel adj)\<^sup>* `` set (x # stack)"
        proof (cases "z = x")
          case True
          then show ?thesis by auto
        next
          case False
          with z have "z \<in> seen' - ?seen1" by blast
          with r(5) reach show ?thesis by blast
        qed
      qed
      show "\<forall>z \<in> seen' - seen. adj_rel adj `` {z} \<subseteq> seen'"
      proof
        fix z assume z: "z \<in> seen' - seen"
        show "adj_rel adj `` {z} \<subseteq> seen'"
        proof (cases "z = x")
          case True
          have "set ys \<subseteq> seen'"
          proof
            fix y assume y: "y \<in> set ys"
            show "y \<in> seen'"
            proof (cases "y \<in> ?seen1")
              case True
              with r(2) show ?thesis by blast
            next
              case False
              with y it have "y \<in> set ?stack'" by simp
              with r(4) show ?thesis by blast
            qed
          qed
          with E True show ?thesis by simp
        next
          case False
          with z have "z \<in> seen' - ?seen1" by blast
          with r(6) show ?thesis by blast
        qed
      qed
    qed
  qed
qed


definition component :: "(string \<times> string) set \<Rightarrow> string \<Rightarrow> string set" where
  "component E f = E\<^sup>* `` {f}"

lemma component_self: "f \<in> component E f"
  by (simp add: component_def)

lemma component_closed: "E `` component E f \<subseteq> component E f"
  unfolding component_def by (auto intro: rtrancl_into_rtrancl)

lemma component_eq:
  assumes "sym E" "g \<in> component E f"
  shows "component E g = component E f"
proof -
  from assms(2) have fg: "(f, g) \<in> E\<^sup>*" by (simp add: component_def)
  from assms(1) have "sym (E\<^sup>*)" by (rule sym_rtrancl)
  from this fg have gf: "(g, f) \<in> E\<^sup>*" by (rule symD)
  show ?thesis
  proof (rule set_eqI)
    fix z
    show "z \<in> component E g \<longleftrightarrow> z \<in> component E f"
    proof
      assume "z \<in> component E g"
      then have "(g, z) \<in> E\<^sup>*" by (simp add: component_def)
      with fg have "(f, z) \<in> E\<^sup>*" by (rule rtrancl_trans)
      then show "z \<in> component E f" by (simp add: component_def)
    next
      assume "z \<in> component E f"
      then have "(f, z) \<in> E\<^sup>*" by (simp add: component_def)
      with gf have "(g, z) \<in> E\<^sup>*" by (rule rtrancl_trans)
      then show "z \<in> component E g" by (simp add: component_def)
    qed
  qed
qed

lemma closed_rtrancl: "E `` X \<subseteq> X \<Longrightarrow> E\<^sup>* `` X = X"
  by (rule Image_closed_trancl)

lemma component_disjoint_closed:
  assumes "sym E" "E `` seen \<subseteq> seen" "f \<notin> seen"
  shows "component E f \<inter> seen = {}"
proof (rule ccontr)
  assume "component E f \<inter> seen \<noteq> {}"
  then obtain y where y: "y \<in> seen" "(f, y) \<in> E\<^sup>*" by (auto simp: component_def)
  from assms(1) have "sym (E\<^sup>*)" by (rule sym_rtrancl)
  from this y(2) have "(y, f) \<in> E\<^sup>*" by (rule symD)
  with y(1) have "f \<in> E\<^sup>* `` seen" by blast
  with closed_rtrancl [OF assms(2)] assms(3) show False by simp
qed

lemma dfs_component:
  assumes it: "\<forall>xs. set (iter xs) = set xs"
    and rng: "adj_rel adj \<subseteq> UNIV \<times> fst ` set adj"
    and sy: "sym (adj_rel adj)"
    and cl: "adj_rel adj `` seen \<subseteq> seen"
    and fk: "f \<in> fst ` set adj"
    and fs: "f \<notin> seen"
  shows "dfs iter adj [f] seen {} =
     Inr (seen \<union> component (adj_rel adj) f, component (adj_rel adj) f)"
proof -
  let ?E = "adj_rel adj"
  from fk have st: "set [f] \<subseteq> fst ` set adj" by simp
  from dfs_ok [OF it rng st, of seen "{}"] obtain seen' cmp' where
    r: "dfs iter adj [f] seen {} = Inr (seen', cmp')" "seen \<subseteq> seen'"
       "cmp' = {} \<union> (seen' - seen)" "set [f] \<subseteq> seen'"
       "seen' - seen \<subseteq> ?E\<^sup>* `` set [f]"
       "\<forall>z \<in> seen' - seen. ?E `` {z} \<subseteq> seen'"
    by blast
  have new_sub: "seen' - seen \<subseteq> component ?E f"
    using r(5) by (simp add: component_def)
  have closed': "?E `` seen' \<subseteq> seen'"
  proof
    fix y assume "y \<in> ?E `` seen'"
    then obtain z where z: "z \<in> seen'" "(z, y) \<in> ?E" by blast
    show "y \<in> seen'"
    proof (cases "z \<in> seen")
      case True
      with z(2) cl have "y \<in> seen" by blast
      with r(2) show ?thesis by blast
    next
      case False
      with z(1) have "z \<in> seen' - seen" by blast
      with r(6) z(2) show ?thesis by blast
    qed
  qed
  have "f \<in> seen'" using r(4) by simp
  then have "?E\<^sup>* `` {f} \<subseteq> ?E\<^sup>* `` seen'" by blast
  also have "\<dots> = seen'" by (rule closed_rtrancl [OF closed'])
  finally have comp_sub: "component ?E f \<subseteq> seen'" by (simp add: component_def)
  have disj: "component ?E f \<inter> seen = {}"
    by (rule component_disjoint_closed [OF sy cl fs])
  have new: "seen' - seen = component ?E f"
    using new_sub comp_sub disj by blast
  have seen'_eq: "seen' = seen \<union> component ?E f"
    using new r(2) by blast
  have cmp'_eq: "cmp' = component ?E f"
    using r(3) new by simp
  from r(1) have "dfs iter adj [f] seen {} = Inr (seen \<union> component ?E f, cmp')"
    using seen'_eq by (rule subst [where P = "\<lambda>s. dfs iter adj [f] seen {} = Inr (s, cmp')", rotated])
  then show ?thesis
    using cmp'_eq by (rule subst [where P = "\<lambda>c. dfs iter adj [f] seen {} = Inr (seen \<union> component ?E f, c)", rotated])
qed

fun classes_from :: "(string \<times> string) set \<Rightarrow> string list \<Rightarrow> string set \<Rightarrow> string set list" where
  "classes_from E [] seen = []"
| "classes_from E (f # fs) seen =
     (if f \<in> seen then classes_from E fs seen
      else component E f # classes_from E fs (seen \<union> component E f))"

lemma comps_loop_ok:
  assumes it: "\<forall>xs. set (iter xs) = set xs"
    and rng: "adj_rel adj \<subseteq> UNIV \<times> fst ` set adj"
    and sy: "sym (adj_rel adj)"
  shows "adj_rel adj `` seen \<subseteq> seen \<Longrightarrow> set fs \<subseteq> fst ` set adj \<Longrightarrow>
     comps_loop iter adj fs seen comps = Inr (comps @ classes_from (adj_rel adj) fs seen)"
proof (induction fs arbitrary: seen comps)
  case Nil
  show ?case by simp
next
  case (Cons f fs)
  from Cons.prems(2) have fk: "f \<in> fst ` set adj" and rest: "set fs \<subseteq> fst ` set adj"
    by simp_all
  show ?case
  proof (cases "f \<in> seen")
    case True
    then show ?thesis
      using Cons.IH [OF Cons.prems(1) rest, of comps] by simp
  next
    case False
    let ?C = "component (adj_rel adj) f"
    have d: "dfs iter adj [f] seen {} = Inr (seen \<union> ?C, ?C)"
      by (rule dfs_component [OF it rng sy Cons.prems(1) fk False])
    have cl': "adj_rel adj `` (seen \<union> ?C) \<subseteq> seen \<union> ?C"
      using Cons.prems(1) component_closed [of "adj_rel adj" f] by blast
    from Cons.IH [OF cl' rest, of "comps @ [?C]"] False d show ?thesis
      by simp
  qed
qed

lemma classes_from_set:
  assumes "sym E"
  shows "E `` seen \<subseteq> seen \<Longrightarrow>
     set (classes_from E fs seen) = component E ` (set fs - seen)
     \<and> distinct (classes_from E fs seen)"
proof (induction fs arbitrary: seen)
  case Nil
  show ?case by simp
next
  case (Cons f fs)
  show ?case
  proof (cases "f \<in> seen")
    case True
    have "set (f # fs) - seen = set fs - seen" using True by auto
    with Cons.IH [OF Cons.prems] True show ?thesis by simp
  next
    case False
    let ?C = "component E f"
    have cl': "E `` (seen \<union> ?C) \<subseteq> seen \<union> ?C"
      using Cons.prems component_closed [of E f] by blast
    note IH = Cons.IH [OF cl']
    have same: "component E g = ?C" if "g \<in> ?C" for g
      using assms that by (rule component_eq)
    have 1: "component E ` (set (f # fs) - seen) =
        insert ?C (component E ` (set fs - (seen \<union> ?C)))"
    proof (rule set_eqI)
      fix c
      show "c \<in> component E ` (set (f # fs) - seen) \<longleftrightarrow>
          c \<in> insert ?C (component E ` (set fs - (seen \<union> ?C)))"
      proof
        assume "c \<in> component E ` (set (f # fs) - seen)"
        then obtain g where g: "g \<in> set (f # fs)" "g \<notin> seen" "c = component E g" by blast
        show "c \<in> insert ?C (component E ` (set fs - (seen \<union> ?C)))"
        proof (cases "g \<in> ?C")
          case True
          with same g(3) show ?thesis by simp
        next
          case False
          with component_self [of f E] have "g \<noteq> f" by blast
          with g(1) have "g \<in> set fs" by simp
          with g(2,3) False show ?thesis by blast
        qed
      next
        assume "c \<in> insert ?C (component E ` (set fs - (seen \<union> ?C)))"
        then show "c \<in> component E ` (set (f # fs) - seen)"
          using False by auto
      qed
    qed
    have 2: "?C \<notin> component E ` (set fs - (seen \<union> ?C))"
    proof
      assume "?C \<in> component E ` (set fs - (seen \<union> ?C))"
      then obtain g where g: "g \<notin> ?C" "?C = component E g" by blast
      with component_self [of g E] show False by simp
    qed
    from IH 1 2 False show ?thesis by simp
  qed
qed


lemma adj_rel_Nil: "adj_rel [] = {}"
  by (simp add: adj_rel_def)

lemma adj_rel_update_empty:
  assumes "adj_rel adj = {}"
  shows "adj_rel (AList.update f [] adj) = {}"
proof (rule ccontr)
  assume "adj_rel (AList.update f [] adj) \<noteq> {}"
  then obtain x y vs where v: "map_of (AList.update f [] adj) x = Some vs" "y \<in> set vs"
    by (auto simp: adj_rel_def)
  from v(1) have "((map_of adj)(f \<mapsto> [])) x = Some vs"
    by (simp add: update_conv')
  with v(2) have "map_of adj x = Some vs"
    by (cases "x = f") auto
  with v(2) have "(x, y) \<in> adj_rel adj"
    by (auto simp: adj_rel_def)
  with assms show False by simp
qed

lemma init_adj:
  "adj_rel adj = {} \<Longrightarrow>
     fst ` set (fold (\<lambda>f adj. AList.update f [] adj) fs adj) = set fs \<union> fst ` set adj
     \<and> adj_rel (fold (\<lambda>f adj. AList.update f [] adj) fs adj) = {}"
proof (induction fs arbitrary: adj)
  case Nil
  then show ?case by simp
next
  case (Cons f fs)
  have e: "adj_rel (AList.update f [] adj) = {}"
    using Cons.prems by (rule adj_rel_update_empty)
  have k: "fst ` set (AList.update f [] adj) = {f} \<union> fst ` set adj"
    by (rule dom_update)
  from Cons.IH [OF e] show ?case
    unfolding k by auto
qed

lemma wf_edges_range:
  assumes "list_all (wf_bit_constraint fs) cs"
  shows "equiv_edges cs \<subseteq> set fs \<times> set fs" "implies_edges cs \<subseteq> set fs \<times> set fs"
proof -
  have pair: "a \<in> set fs \<and> b \<in> set fs"
    if c: "c \<in> set cs" and ty: "c_type c = Some ty"
      and up: "upper ty = ''IMPLIES'' \<or> upper ty = ''EQUIV'' \<or> upper ty = ''MUTEX''"
      and ab: "c_a c = Some a" "c_b c = Some b" for c ty a b
  proof -
    from assms c have "wf_bit_constraint fs c" by (simp add: list_all_iff)
    from wf_bit_constraint_pair [OF this ty up] ab show ?thesis by simp
  qed
  show "equiv_edges cs \<subseteq> set fs \<times> set fs"
  proof
    fix p assume "p \<in> equiv_edges cs"
    then obtain a b c where p: "p = (a, b)" "c \<in> set cs" "is_equiv c a b \<or> is_equiv c b a"
      by (auto simp: equiv_edges_def)
    from p(3) obtain ty where "c_type c = Some ty" "upper ty = ''EQUIV''"
      "(c_a c = Some a \<and> c_b c = Some b) \<or> (c_a c = Some b \<and> c_b c = Some a)"
      by (cases "c_type c") (auto simp: is_equiv_def)
    with pair [OF p(2), of ty] show "p \<in> set fs \<times> set fs"
      unfolding p(1) by blast
  qed
  show "implies_edges cs \<subseteq> set fs \<times> set fs"
  proof
    fix p assume "p \<in> implies_edges cs"
    then obtain a b c where p: "p = (a, b)" "c \<in> set cs" "is_implies c a b"
      by (auto simp: implies_edges_def)
    from p(3) obtain ty where "c_type c = Some ty" "upper ty = ''IMPLIES''"
      "c_a c = Some a" "c_b c = Some b"
      by (cases "c_type c") (auto simp: is_implies_def)
    with pair [OF p(2), of ty a b] show "p \<in> set fs \<times> set fs"
      unfolding p(1) by blast
  qed
qed

lemma sym_spec_edges: "sym (spec_edges cs)"
  unfolding sym_def spec_edges_def equiv_edges_def by blast

lemma scc_equivalence_classes:
  assumes wf: "list_all (wf_bit_constraint fs) cs"
    and it: "\<forall>xs. set (iter xs) = set xs"
  shows "scc_equivalence iter fs cs = Inr (classes_from (spec_edges cs) fs {})"
proof -
  let ?adj0 = "fold (\<lambda>f adj. AList.update f [] adj) fs ([] :: adjacency)"
  note i0 = init_adj [OF adj_rel_Nil, of fs]
  have k0: "fst ` set ?adj0 = set fs"
    using i0 [THEN conjunct1] by simp
  have e0: "adj_rel ?adj0 = {}"
    by (rule i0 [THEN conjunct2])
  have d0: "distinct (map fst ([] :: adjacency))" by simp
  from build_loop_ok [OF wf k0 d0] obtain adj1 imp1 where
    b: "build_loop (?adj0, []) cs = Inr (adj1, imp1)" "fst ` set adj1 = set fs"
       "distinct (map fst imp1)" "adj_rel adj1 = adj_rel ?adj0 \<union> equiv_edges cs"
       "adj_rel imp1 = adj_rel [] \<union> implies_edges cs"
    by blast
  have e1: "adj_rel adj1 = equiv_edges cs"
    unfolding b(4) e0 by simp
  have i1: "adj_rel imp1 = implies_edges cs"
    unfolding b(5) adj_rel_Nil by simp
  note rng = wf_edges_range [OF wf]
  have pre: "\<forall>(a, bs) \<in> set imp1. \<forall>b \<in> set bs. (b, a) \<in> adj_rel imp1 \<longrightarrow> a \<in> set fs \<and> b \<in> set fs"
    unfolding i1 using rng(2) by blast
  from mutual_loop_ok [OF b(2) pre it] obtain adj2 where
    m: "mutual_loop iter imp1 adj1 imp1 = Inr adj2" "fst ` set adj2 = set fs"
       "adj_rel adj2 = adj_rel adj1 \<union> (all_mutual imp1 imp1 \<union> (all_mutual imp1 imp1)\<inverse>)"
    by blast
  have e2: "adj_rel adj2 = spec_edges cs"
    unfolding m(3) all_mutual_self [OF b(3)] e1 i1 spec_edges_def by blast
  have r2: "adj_rel adj2 \<subseteq> UNIV \<times> fst ` set adj2"
    unfolding e2 m(2) spec_edges_def using rng by blast
  have s2: "sym (adj_rel adj2)"
    unfolding e2 by (rule sym_spec_edges)
  have cl: "adj_rel adj2 `` {} \<subseteq> {}" by simp
  have sub: "set fs \<subseteq> fst ` set adj2"
    unfolding m(2) by simp
  have c: "comps_loop iter adj2 fs {} [] = Inr ([] @ classes_from (adj_rel adj2) fs {})"
    by (rule comps_loop_ok [OF it r2 s2 cl sub])
  show ?thesis
    unfolding scc_equivalence_def by (simp add: b(1) m(1) c e2)
qed

lemma component_in_range:
  assumes "E \<subseteq> K \<times> K" "f \<in> K"
  shows "component E f \<subseteq> K"
proof -
  from assms(1) have "E `` K \<subseteq> K" by blast
  then have "E\<^sup>* `` K = K" by (rule closed_rtrancl)
  with assms(2) show ?thesis
    unfolding component_def by blast
qed

lemma component_isolated:
  assumes "f \<notin> Domain E"
  shows "component E f = {f}"
proof -
  have "z = f" if "(f, z) \<in> E\<^sup>*" for z
    using that assms by (induction rule: converse_rtrancl_induct) auto
  then show ?thesis
    unfolding component_def by auto
qed


lemma classes_partition:
  assumes sy: "sym E" and rng: "E \<subseteq> set fs \<times> set fs"
  defines "comps \<equiv> classes_from E fs {}"
  shows "distinct comps" "set comps = component E ` set fs" "\<Union> (set comps) = set fs"
    "\<forall>f \<in> set fs. \<exists>!C. C \<in> set comps \<and> f \<in> C"
    "\<forall>f \<in> set fs. f \<notin> Domain E \<longrightarrow> {f} \<in> set comps"
    "length comps = card (component E ` set fs)"
proof -
  have cl: "E `` {} \<subseteq> {}" by simp
  from classes_from_set [OF sy cl, of fs] have
    s: "set comps = component E ` set fs" and d: "distinct comps"
    unfolding comps_def by simp_all
  show "distinct comps" by (rule d)
  show "set comps = component E ` set fs" by (rule s)
  show "\<Union> (set comps) = set fs"
  proof
    show "\<Union> (set comps) \<subseteq> set fs"
    proof
      fix z assume "z \<in> \<Union> (set comps)"
      then obtain g where g: "g \<in> set fs" "z \<in> component E g"
        unfolding s by blast
      from component_in_range [OF rng g(1)] g(2) show "z \<in> set fs" by blast
    qed
    show "set fs \<subseteq> \<Union> (set comps)"
    proof
      fix f assume f: "f \<in> set fs"
      have "f \<in> component E f" by (rule component_self)
      with f show "f \<in> \<Union> (set comps)"
        unfolding s by blast
    qed
  qed
  show "\<forall>f \<in> set fs. \<exists>!C. C \<in> set comps \<and> f \<in> C"
  proof
    fix f assume f: "f \<in> set fs"
    show "\<exists>!C. C \<in> set comps \<and> f \<in> C"
    proof (rule ex1I [of _ "component E f"])
      show "component E f \<in> set comps \<and> f \<in> component E f"
        unfolding s using f by (simp add: component_self)
    next
      fix C assume "C \<in> set comps \<and> f \<in> C"
      then obtain g where g: "C = component E g" "f \<in> component E g"
        unfolding s by blast
      from component_eq [OF sy g(2)] g(1) show "C = component E f" by simp
    qed
  qed
  show "\<forall>f \<in> set fs. f \<notin> Domain E \<longrightarrow> {f} \<in> set comps"
  proof (intro ballI impI)
    fix f assume "f \<in> set fs" "f \<notin> Domain E"
    then have "f \<in> set fs" "{f} = component E f"
      by (simp_all add: component_isolated)
    then show "{f} \<in> set comps"
      unfolding s by (rule_tac image_eqI [of _ _ f]) simp_all
  qed
  show "length comps = card (component E ` set fs)"
    using distinct_card [OF d] s by simp
qed

lemma component_pair:
  "component {(a, b), (b, a)} x = (if x = a \<or> x = b then {a, b} else {x})"
proof -
  let ?E = "{(a, b), (b, a)}"
  have sub: "z \<in> (if x = a \<or> x = b then {a, b} else {x})" if "(x, z) \<in> ?E\<^sup>*" for z
    using that by (induction rule: rtrancl_induct) (auto split: if_splits)
  have ab: "(a, b) \<in> ?E\<^sup>*" "(b, a) \<in> ?E\<^sup>*" by auto
  show ?thesis
  proof (rule set_eqI)
    fix z
    show "z \<in> component ?E x \<longleftrightarrow> z \<in> (if x = a \<or> x = b then {a, b} else {x})"
    proof
      assume "z \<in> component ?E x"
      then show "z \<in> (if x = a \<or> x = b then {a, b} else {x})"
        using sub by (simp add: component_def)
    next
      assume "z \<in> (if x = a \<or> x = b then {a, b} else {x})"
      then show "z \<in> component ?E x"
        using ab unfolding component_def by (auto split: if_splits)
    qed
  qed
qed

lemma spec_edges_equiv:
  assumes "c_type c = Some ty" "upper ty = ''EQUIV''" "c_a c = Some a" "c_b c = Some b"
  shows "spec_edges [c] = {(a, b), (b, a)}"
  unfolding spec_edges_def edges_of_equiv [OF assms] by simp

lemma spec_edges_mutual:
  assumes "c_type c1 = Some ty1" "upper ty1 = ''IMPLIES''" "c_a c1 = Some a" "c_b c1 = Some b"
    "c_type c2 = Some ty2" "upper ty2 = ''IMPLIES''" "c_a c2 = Some b" "c_b c2 = Some a"
  shows "spec_edges [c1, c2] = {(a, b), (b, a)}"
proof -
  have e: "equiv_edges [c1, c2] = {}"
    unfolding equiv_edges_Cons [of c1 "[c2]"]
      edges_of_implies(1) [OF assms(1-4)] edges_of_implies(1) [OF assms(5-8)] by simp
  have i: "implies_edges [c1, c2] = {(a, b), (b, a)}"
    unfolding implies_edges_Cons [of c1 "[c2]"]
      edges_of_implies(2) [OF assms(1-4)] edges_of_implies(2) [OF assms(5-8)] by auto
  show ?thesis
    unfolding spec_edges_def e i by auto
qed

lemma wf_pair:
  assumes "c_type c = Some ty" "c_a c = Some a" "c_b c = Some b" "a \<in> set fs" "b \<in> set fs"
    "upper ty = ''EQUIV'' \<or> upper ty = ''IMPLIES''"
  shows "wf_bit_constraint fs c"
  using assms by (auto simp: wf_bit_constraint_def)

lemma equiv_example:
  assumes it: "\<forall>xs. set (iter xs) = set xs" and d: "distinct [a, b, d]"
    and c: "c_type c = Some ty" "upper ty = ''EQUIV''" "c_a c = Some a" "c_b c = Some b"
  shows "scc_equivalence iter [a, b, d] [c] = Inr [{a, b}, {d}]"
proof -
  have wf: "list_all (wf_bit_constraint [a, b, d]) [c]"
    using wf_pair [OF c(1,3,4), of "[a, b, d]"] c(2) by simp
  have E: "spec_edges [c] = {(a, b), (b, a)}"
    by (rule spec_edges_equiv [OF c])
  have cl: "classes_from {(a, b), (b, a)} [a, b, d] {} = [{a, b}, {d}]"
    using d by (auto simp: component_pair)
  show ?thesis
    unfolding scc_equivalence_classes [OF wf it] E cl ..
qed

lemma mutual_example:
  assumes it: "\<forall>xs. set (iter xs) = set xs" and d: "a \<noteq> b"
    and c1: "c_type c1 = Some ty1" "upper ty1 = ''IMPLIES''" "c_a c1 = Some a" "c_b c1 = Some b"
    and c2: "c_type c2 = Some ty2" "upper ty2 = ''IMPLIES''" "c_a c2 = Some b" "c_b c2 = Some a"
  shows "scc_equivalence iter [a, b] [c1, c2] = Inr [{a, b}]"
proof -
  have wf: "list_all (wf_bit_constraint [a, b]) [c1, c2]"
    using wf_pair [OF c1(1,3,4), of "[a, b]"] wf_pair [OF c2(1,3,4), of "[a, b]"] c1(2) c2(2)
    by simp
  have E: "spec_edges [c1, c2] = {(a, b), (b, a)}"
    by (rule spec_edges_mutual [OF c1 c2])
  have cl: "classes_from {(a, b), (b, a)} [a, b] {} = [{a, b}]"
    using d by (auto simp: component_pair)
  show ?thesis
    unfolding scc_equivalence_classes [OF wf it] E cl ..
qed


text \<open>
  C4. When the constraints have their fields and name declared flags, \<open>scc_equivalence\<close>
  returns, whatever the order in which the sets are iterated, the connected components of
  the flags in the graph with an edge for each EQUIV(a, b) and for each mutually implying
  pair: the components of the flags, each once; they cover the flags, every flag lies in
  exactly one of them, and a flag on no edge is a singleton. \<open>compute_B_eff\<close> returns
  their number. Flags [a, b, d] with EQUIV(a, b) give [{a, b}, {d}] and B_eff = 2; flags
  [a, b] with IMPLIES(a, b) and IMPLIES(b, a) give [{a, b}] and B_eff = 1.
\<close>

theorem scc_equivalence_components:
  "(list_all (wf_bit_constraint fs) cs \<and> (\<forall>xs. set (iter xs) = set xs) \<longrightarrow>
      (\<exists>comps. scc_equivalence iter fs cs = Inr comps \<and>
         compute_B_eff iter fs cs = Inr (int (length comps)) \<and>
         distinct comps \<and>
         set comps = component (spec_edges cs) ` set fs \<and>
         \<Union> (set comps) = set fs \<and>
         (\<forall>f \<in> set fs. \<exists>!C. C \<in> set comps \<and> f \<in> C) \<and>
         (\<forall>f \<in> set fs. f \<notin> Domain (spec_edges cs) \<longrightarrow> {f} \<in> set comps) \<and>
         length comps = card (component (spec_edges cs) ` set fs))) \<and>
   ((\<forall>xs. set (iter xs) = set xs) \<and> distinct [a, b, d] \<and> c_type c = Some ty \<and>
    upper ty = ''EQUIV'' \<and> c_a c = Some a \<and> c_b c = Some b \<longrightarrow>
      scc_equivalence iter [a, b, d] [c] = Inr [{a, b}, {d}] \<and>
      compute_B_eff iter [a, b, d] [c] = Inr 2) \<and>
   ((\<forall>xs. set (iter xs) = set xs) \<and> a \<noteq> b \<and>
    c_type c1 = Some ty1 \<and> upper ty1 = ''IMPLIES'' \<and> c_a c1 = Some a \<and> c_b c1 = Some b \<and>
    c_type c2 = Some ty2 \<and> upper ty2 = ''IMPLIES'' \<and> c_a c2 = Some b \<and> c_b c2 = Some a \<longrightarrow>
      scc_equivalence iter [a, b] [c1, c2] = Inr [{a, b}] \<and>
      compute_B_eff iter [a, b] [c1, c2] = Inr 1)"
proof (intro conjI impI)
  assume h: "list_all (wf_bit_constraint fs) cs \<and> (\<forall>xs. set (iter xs) = set xs)"
  then have wf: "list_all (wf_bit_constraint fs) cs" and it: "\<forall>xs. set (iter xs) = set xs"
    by simp_all
  let ?E = "spec_edges cs"
  let ?comps = "classes_from ?E fs {}"
  have r: "scc_equivalence iter fs cs = Inr ?comps"
    by (rule scc_equivalence_classes [OF wf it])
  have rng: "?E \<subseteq> set fs \<times> set fs"
    unfolding spec_edges_def using wf_edges_range [OF wf] by blast
  note p = classes_partition [OF sym_spec_edges rng]
  show "\<exists>comps. scc_equivalence iter fs cs = Inr comps \<and>
         compute_B_eff iter fs cs = Inr (int (length comps)) \<and>
         distinct comps \<and>
         set comps = component (spec_edges cs) ` set fs \<and>
         \<Union> (set comps) = set fs \<and>
         (\<forall>f \<in> set fs. \<exists>!C. C \<in> set comps \<and> f \<in> C) \<and>
         (\<forall>f \<in> set fs. f \<notin> Domain (spec_edges cs) \<longrightarrow> {f} \<in> set comps) \<and>
         length comps = card (component (spec_edges cs) ` set fs)"
  proof (intro exI conjI)
    show "scc_equivalence iter fs cs = Inr ?comps" by (rule r)
    show "compute_B_eff iter fs cs = Inr (int (length ?comps))"
      by (simp add: compute_B_eff_def r)
    show "distinct ?comps" by (rule p(1))
    show "set ?comps = component ?E ` set fs" by (rule p(2))
    show "\<Union> (set ?comps) = set fs" by (rule p(3))
    show "\<forall>f \<in> set fs. \<exists>!C. C \<in> set ?comps \<and> f \<in> C" by (rule p(4))
    show "\<forall>f \<in> set fs. f \<notin> Domain ?E \<longrightarrow> {f} \<in> set ?comps" by (rule p(5))
    show "length ?comps = card (component ?E ` set fs)" by (rule p(6))
  qed
next
  assume h: "(\<forall>xs. set (iter xs) = set xs) \<and> distinct [a, b, d] \<and> c_type c = Some ty \<and>
    upper ty = ''EQUIV'' \<and> c_a c = Some a \<and> c_b c = Some b"
  then have e: "scc_equivalence iter [a, b, d] [c] = Inr [{a, b}, {d}]"
    by (intro equiv_example [of iter a b d c ty]) simp_all
  then show "scc_equivalence iter [a, b, d] [c] = Inr [{a, b}, {d}]" .
  from e show "compute_B_eff iter [a, b, d] [c] = Inr 2"
    by (simp add: compute_B_eff_def)
next
  assume h: "(\<forall>xs. set (iter xs) = set xs) \<and> a \<noteq> b \<and>
    c_type c1 = Some ty1 \<and> upper ty1 = ''IMPLIES'' \<and> c_a c1 = Some a \<and> c_b c1 = Some b \<and>
    c_type c2 = Some ty2 \<and> upper ty2 = ''IMPLIES'' \<and> c_a c2 = Some b \<and> c_b c2 = Some a"
  then have e: "scc_equivalence iter [a, b] [c1, c2] = Inr [{a, b}]"
    by (intro mutual_example [of iter a b c1 ty1 c2 ty2]) simp_all
  then show "scc_equivalence iter [a, b] [c1, c2] = Inr [{a, b}]" .
  from e show "compute_B_eff iter [a, b] [c1, c2] = Inr 1"
    by (simp add: compute_B_eff_def)
qed


lemma upper_EQUIV: "upper ''EQUIV'' = ''EQUIV''"
  by code_simp

lemma upper_IMPLIES: "upper ''IMPLIES'' = ''IMPLIES''"
  by code_simp

text \<open>
  With the sets iterated backwards: flags a, b, c and EQUIV(a, b) give components that
  cover the flags; the two examples of the claim.
\<close>

theorem scc_equivalence_components_witness:
  "(\<exists>comps. scc_equivalence rev [''a'', ''b'', ''c''] [pair_constraint ''EQUIV'' ''a'' ''b'']
       = Inr comps \<and> distinct comps \<and> \<Union> (set comps) = {''a'', ''b'', ''c''}) \<and>
   (scc_equivalence rev [''a'', ''b'', ''c''] [pair_constraint ''EQUIV'' ''a'' ''b'']
     = Inr [{''a'', ''b''}, {''c''}] \<and>
    compute_B_eff rev [''a'', ''b'', ''c''] [pair_constraint ''EQUIV'' ''a'' ''b''] = Inr 2) \<and>
   (scc_equivalence rev [''a'', ''b'']
     [pair_constraint ''IMPLIES'' ''a'' ''b'', pair_constraint ''IMPLIES'' ''b'' ''a'']
     = Inr [{''a'', ''b''}] \<and>
    compute_B_eff rev [''a'', ''b'']
     [pair_constraint ''IMPLIES'' ''a'' ''b'', pair_constraint ''IMPLIES'' ''b'' ''a''] = Inr 1)"
proof -
  let ?e = "pair_constraint ''EQUIV'' ''a'' ''b''"
  let ?i1 = "pair_constraint ''IMPLIES'' ''a'' ''b''"
  let ?i2 = "pair_constraint ''IMPLIES'' ''b'' ''a''"
  have it: "\<forall>xs :: string list. set (rev xs) = set xs" by simp
  have wf: "list_all (wf_bit_constraint [''a'', ''b'', ''c'']) [?e]"
    by (simp add: wf_bit_constraint_def pair_constraint_def typed_constraint_def upper_EQUIV)
  note t = scc_equivalence_components [of "[''a'', ''b'', ''c'']" "[?e]" rev "''a''" "''b''" "''c''"
      ?e "''EQUIV''" ?i1 "''IMPLIES''" ?i2 "''IMPLIES''"]
  have h1: "list_all (wf_bit_constraint [''a'', ''b'', ''c'']) [?e] \<and>
      (\<forall>xs :: string list. set (rev xs) = set xs)"
    using wf it by (rule conjI)
  from t [THEN conjunct1, THEN mp, OF h1] obtain comps where
    c: "scc_equivalence rev [''a'', ''b'', ''c''] [?e] = Inr comps" "distinct comps"
       "\<Union> (set comps) = set [''a'', ''b'', ''c'']"
    by blast
  from c(3) have c3: "\<Union> (set comps) = {''a'', ''b'', ''c''}" by simp
  have 1: "\<exists>comps. scc_equivalence rev [''a'', ''b'', ''c''] [?e] = Inr comps \<and> distinct comps
      \<and> \<Union> (set comps) = {''a'', ''b'', ''c''}"
    using c(1,2) c3 by (intro exI conjI)
  have h2: "(\<forall>xs :: string list. set (rev xs) = set xs) \<and> distinct [''a'', ''b'', ''c''] \<and>
      c_type ?e = Some ''EQUIV'' \<and> upper ''EQUIV'' = ''EQUIV'' \<and> c_a ?e = Some ''a'' \<and>
      c_b ?e = Some ''b''"
    by (simp add: pair_constraint_def typed_constraint_def upper_EQUIV)
  note 2 = t [THEN conjunct2, THEN conjunct1, THEN mp, OF h2]
  have h3: "(\<forall>xs :: string list. set (rev xs) = set xs) \<and> ''a'' \<noteq> ''b'' \<and>
      c_type ?i1 = Some ''IMPLIES'' \<and> upper ''IMPLIES'' = ''IMPLIES'' \<and> c_a ?i1 = Some ''a'' \<and>
      c_b ?i1 = Some ''b'' \<and>
      c_type ?i2 = Some ''IMPLIES'' \<and> upper ''IMPLIES'' = ''IMPLIES'' \<and> c_a ?i2 = Some ''b'' \<and>
      c_b ?i2 = Some ''a''"
    by (simp add: pair_constraint_def typed_constraint_def upper_IMPLIES)
  note 3 = t [THEN conjunct2, THEN conjunct2, THEN mp, OF h3]
  from 1 conjI [OF 2 3] show ?thesis by (rule conjI)
qed

section \<open>Python floats\<close>

text \<open>
  A Python float is an IEEE 754 binary64 number. The model holds its exact value as a
  rational; \<open>rnd\<close> rounds a rational to the nearest binary64 value, ties to the even
  significand, with the subnormal range below \<open>2 ^ - 1022\<close>. Each arithmetic operation is
  the exact operation followed by \<open>rnd\<close>, as IEEE 754 defines it. Infinities, NaN and the
  sign of zero are not modelled: converting an integer that is out of range raises
  \<open>OverflowError\<close>, and the other operands of \<open>estimate_sanity\<close> are quotients of list
  lengths (below \<open>2 ^ 63\<close> in CPython), fractions in [0, 1] and the constant 100.
\<close>

definition pow2 :: "int \<Rightarrow> rat" where
  "pow2 e = (if 0 \<le> e then 2 ^ nat e else 1 / 2 ^ nat (- e))"

definition round_half_even :: "rat \<Rightarrow> int" where
  "round_half_even x =
     (let f = \<lfloor>x\<rfloor>; r = x - of_int f in
      if r < 1 / 2 then f else if 1 / 2 < r then f + 1 else if even f then f else f + 1)"

definition floor_log2 :: "rat \<Rightarrow> int" where
  "floor_log2 q =
     (case quotient_of q of (n, d) \<Rightarrow>
        let e = bitlen n - bitlen d in if q < pow2 e then e - 1 else e)"

definition rnd :: "rat \<Rightarrow> rat" where
  "rnd q =
     (if q = 0 then 0
      else let a = \<bar>q\<bar>; e = max (floor_log2 a - 52) (- 1074);
               m = round_half_even (a / pow2 e)
           in sgn q * of_int m * pow2 e)"

text \<open>\<open>float(i)\<close>, also the conversion of the integer operand of \<open>i * x\<close>.\<close>

definition py_float :: "int \<Rightarrow> py_error + rat" where
  "py_float i = (let x = rnd (of_int i) in if pow2 1024 \<le> \<bar>x\<bar> then Inl OverflowError else Inr x)"

text \<open>\<open>a / b\<close> on integers: the correctly rounded quotient.\<close>

definition py_truediv :: "int \<Rightarrow> int \<Rightarrow> py_error + rat" where
  "py_truediv a b = (if b = 0 then Inl ZeroDivisionError else Inr (rnd (of_int a / of_int b)))"

definition fmul :: "rat \<Rightarrow> rat \<Rightarrow> rat" where
  "fmul x y = rnd (x * y)"

definition fsub :: "rat \<Rightarrow> rat \<Rightarrow> rat" where
  "fsub x y = rnd (x - y)"

text \<open>\<open>min(a, b)\<close> and \<open>max(a, b)\<close> return \<open>a\<close> unless \<open>b\<close> is smaller, respectively larger.\<close>

definition py_min :: "rat \<Rightarrow> rat \<Rightarrow> rat" where
  "py_min a b = (if b < a then b else a)"

definition py_max :: "rat \<Rightarrow> rat \<Rightarrow> rat" where
  "py_max a b = (if a < b then b else a)"

text \<open>\<open>f"{x:.1f}"\<close> and \<open>f"{x:.2f}"\<close>: the exact value rounded half-even to \<open>d\<close> decimals;
  \<open>f"{n:,}"\<close>: an integer with a comma between groups of three digits.\<close>

definition zfill :: "nat \<Rightarrow> string \<Rightarrow> string" where
  "zfill d s = replicate (d - length s) (CHR ''0'') @ s"

definition fmt_fixed :: "nat \<Rightarrow> rat \<Rightarrow> string" where
  "fmt_fixed d x =
     (let n = nat (round_half_even (\<bar>x\<bar> * 10 ^ d)) in
      (if x < 0 then ''-'' else '''') @ str_nat (n div 10 ^ d) @ ''.'' @ zfill d (str_nat (n mod 10 ^ d)))"

fun commas_nat :: "nat \<Rightarrow> string" where
  "commas_nat n =
     (if n < 1000 then str_nat n
      else commas_nat (n div 1000) @ '','' @ zfill 3 (str_nat (n mod 1000)))"

declare commas_nat.simps [simp del]

definition fmt_commas :: "int \<Rightarrow> string" where
  "fmt_commas i = (if i < 0 then CHR ''-'' # commas_nat (nat (- i)) else commas_nat (nat i))"

section \<open>Sanity estimates\<close>

text \<open>\<open>count_category_leaves\<close>: 1 for an empty dict, otherwise the loop that multiplies
  \<open>n\<close> by \<open>max(1, len(vals))\<close> for each category.\<close>

definition count_category_leaves :: "(string \<times> string list) list \<Rightarrow> int" where
  "count_category_leaves cats =
     (if cats = [] then 1
      else fold (\<lambda>(_, vals) n. n * max 1 (int (length vals))) cats 1)"

text \<open>\<open>c.get("type", "").upper()\<close>.\<close>

definition type_upper :: "constraint \<Rightarrow> string" where
  "type_upper c = upper (case c_type c of None \<Rightarrow> '''' | Some t \<Rightarrow> t)"

text \<open>\<open>c.get("when", {})\<close>, and \<open>values = spec if isinstance(spec, list) else [spec]\<close>.\<close>

definition when_items :: "constraint \<Rightarrow> (string \<times> when_spec) list" where
  "when_items c = (case c_when c of None \<Rightarrow> [] | Some w \<Rightarrow> w)"

definition spec_values :: "when_spec \<Rightarrow> string list" where
  "spec_values spec = (case spec of One s \<Rightarrow> [s] | Many vs \<Rightarrow> vs)"

text \<open>\<open>len(values) / max(1, len(cats.get(col, values)))\<close> for one entry of \<open>when\<close>.\<close>

definition cond_fraction :: "(string \<times> string list) list \<Rightarrow> string \<Rightarrow> when_spec \<Rightarrow> py_error + rat" where
  "cond_fraction cats col spec =
     (let values = spec_values spec;
          denom = max 1 (int (length (case map_of cats col of None \<Rightarrow> values | Some vs \<Rightarrow> vs)))
      in py_truediv (int (length values)) denom)"

text \<open>The loop over \<open>when.items()\<close> that accumulates \<open>frac_cats\<close>.\<close>

fun frac_cats_loop ::
    "(string \<times> string list) list \<Rightarrow> rat \<Rightarrow> (string \<times> when_spec) list \<Rightarrow> py_error + rat" where
  "frac_cats_loop cats acc [] = Inr acc"
| "frac_cats_loop cats acc ((col, spec) # items) =
     ebind (cond_fraction cats col spec) (\<lambda>q.
       frac_cats_loop cats (fmul acc (py_min 1 q)) items)"

text \<open>The loop that fills \<open>forbid_fracs\<close>; \<open>prev.get(flag, 0.0)\<close> is \<open>prev_get\<close>.\<close>

definition prev_get :: "(string \<times> rat) list \<Rightarrow> string \<Rightarrow> rat" where
  "prev_get prev flag = (case map_of prev flag of None \<Rightarrow> 0 | Some p \<Rightarrow> p)"

fun forbid_loop ::
    "(string \<times> string list) list \<Rightarrow> (string \<times> rat) list \<Rightarrow> constraint list \<Rightarrow> py_error + rat list" where
  "forbid_loop cats prev [] = Inr []"
| "forbid_loop cats prev (c # cs) =
     (if type_upper c \<noteq> ''FORBID_WHEN'' then forbid_loop cats prev cs
      else ebind (getitem (c_if_flag c)) (\<lambda>flag.
           ebind (frac_cats_loop cats 1 (when_items c)) (\<lambda>frac_cats.
           ebind (forbid_loop cats prev cs) (\<lambda>rest.
             Inr (fmul (prev_get prev flag) frac_cats # rest)))))"

text \<open>\<open>keep_prob\<close>: the loop over \<open>forbid_fracs\<close>.\<close>

definition keep_prob_of :: "rat list \<Rightarrow> rat" where
  "keep_prob_of fracs = fold (\<lambda>f kp. fmul kp (fsub 1 (py_max 0 (py_min 1 f)))) fracs 1"

text \<open>The flag prevalences: \<open>sum(((m >> pos[f]) & 1) for m in valid_masks) / v\<close>, or 0.0.\<close>

definition prevalence :: "(string \<rightharpoonup> nat) \<Rightarrow> int list \<Rightarrow> int \<Rightarrow> string \<Rightarrow> py_error + rat" where
  "prevalence pos valid_masks v f =
     (if v > 0 then
        ebind (getitem (pos f)) (\<lambda>p.
          py_truediv (sum_list (map (\<lambda>m. bit_val m p) valid_masks)) v)
      else Inr 0)"

fun prev_loop ::
    "(string \<rightharpoonup> nat) \<Rightarrow> int list \<Rightarrow> int \<Rightarrow> (string \<times> rat) list \<Rightarrow> string list
      \<Rightarrow> py_error + (string \<times> rat) list" where
  "prev_loop pos valid_masks v prev [] = Inr prev"
| "prev_loop pos valid_masks v prev (f # fs) =
     ebind (prevalence pos valid_masks v f) (\<lambda>p.
       prev_loop pos valid_masks v (AList.update f p prev) fs)"

text \<open>\<open>[f"{k}={prev[k]*100:.1f}%" for k in flags]\<close>, the parts of \<open>prev_line\<close>.\<close>

fun prev_parts :: "(string \<times> rat) list \<Rightarrow> string list \<Rightarrow> py_error + string list" where
  "prev_parts prev [] = Inr []"
| "prev_parts prev (k # ks) =
     ebind (getitem (map_of prev k)) (\<lambda>p.
     ebind (prev_parts prev ks) (\<lambda>rest.
       Inr ((k @ ''='' @ fmt_fixed 1 (fmul p 100) @ ''%'') # rest)))"

text \<open>The pieces of the FORBID_WHEN note: the first entry of \<open>when\<close> only.\<close>

fun pieces_loop :: "(string \<times> string list) list \<Rightarrow> constraint list \<Rightarrow> py_error + string list" where
  "pieces_loop cats [] = Inr []"
| "pieces_loop cats (c # cs) =
     (if type_upper c \<noteq> ''FORBID_WHEN'' then pieces_loop cats cs
      else ebind (getitem (c_if_flag c)) (\<lambda>flag.
           ebind (case when_items c of
                    [] \<Rightarrow> Inr []
                  | (col, spec) # _ \<Rightarrow>
                      ebind (cond_fraction cats col spec) (\<lambda>q.
                        Inr [flag @ ''@'' @ fmt_fixed 2 (fmul q 100) @ ''%''])) (\<lambda>piece.
           ebind (pieces_loop cats cs) (\<lambda>rest. Inr (piece @ rest)))))"

definition count_type :: "string \<Rightarrow> constraint list \<Rightarrow> int" where
  "count_type t cons = int (length (filter (\<lambda>c. type_upper c = t) cons))"

definition notes_of :: "(string \<times> string list) list \<Rightarrow> constraint list \<Rightarrow> py_error + string list" where
  "notes_of cats cons =
     ebind (if count_type ''FORBID_WHEN'' cons \<noteq> 0 then
              ebind (pieces_loop cats cons) (\<lambda>pieces.
                Inr (if pieces \<noteq> [] then
                       [''Applied FORBID_WHEN estimates: '' @ join ''; '' pieces @ ''.'']
                     else []))
            else Inr []) (\<lambda>n1.
       Inr (n1 @ (if count_type ''FORBID_IF_SQL'' cons \<noteq> 0 then
                    [''Excluded '' @ str_int (count_type ''FORBID_IF_SQL'' cons)
                       @ '' FORBID_IF_SQL rule(s) from estimate.'']
                  else [])))"

text \<open>The local variables of \<open>estimate_sanity\<close> before they are formatted.\<close>

record estimate_vals =
  ev_n_eff :: int
  ev_theoretical_max :: int
  ev_prev :: "(string \<times> rat) list"
  ev_keep_prob :: rat
  ev_est_remaining :: int
  ev_est_pruned :: int
  ev_prev_line :: string
  ev_notes :: "string list"
  ev_pct :: rat

definition estimate_vals_of :: "model \<Rightarrow> int list \<Rightarrow> py_error + estimate_vals" where
  "estimate_vals_of m valid_masks =
     (let flags = m_flags m; cats = m_categories m; cons = m_constraints m;
          v = max 0 (int (length valid_masks));
          n_eff = count_category_leaves cats;
          theoretical_max = v * n_eff;
          pos = bitpos_map flags
      in ebind (prev_loop pos valid_masks v [] flags) (\<lambda>prev.
         ebind (forbid_loop cats prev cons) (\<lambda>forbid_fracs.
         let keep_prob = keep_prob_of forbid_fracs in
         ebind (py_float theoretical_max) (\<lambda>tm_float.
         let est_remaining = round_half_even (fmul tm_float keep_prob);
             est_pruned = theoretical_max - est_remaining
         in ebind (prev_parts prev flags) (\<lambda>parts.
            ebind (notes_of cats cons) (\<lambda>notes.
            ebind (if theoretical_max > 0 then
                     ebind (py_truediv est_remaining theoretical_max) (\<lambda>q. Inr (fmul q 100))
                   else Inr 0) (\<lambda>pct.
              Inr \<lparr>ev_n_eff = n_eff, ev_theoretical_max = theoretical_max, ev_prev = prev,
                   ev_keep_prob = keep_prob, ev_est_remaining = est_remaining,
                   ev_est_pruned = est_pruned, ev_prev_line = join '', '' parts,
                   ev_notes = notes, ev_pct = pct\<rparr>)))))))"

text \<open>The returned dict and \<open>estimate_sanity\<close>: the local values formatted.\<close>

record estimate =
  e_prev_line :: string
  e_theoretical_max :: string
  e_est_remaining :: string
  e_est_pruned :: string
  e_est_pct :: string
  e_notes :: string

definition estimate_sanity :: "model \<Rightarrow> int list \<Rightarrow> py_error + estimate" where
  "estimate_sanity m valid_masks =
     ebind (estimate_vals_of m valid_masks) (\<lambda>x.
       Inr \<lparr>e_prev_line = ev_prev_line x,
            e_theoretical_max = fmt_commas (ev_theoretical_max x),
            e_est_remaining = fmt_commas (ev_est_remaining x),
            e_est_pruned = fmt_commas (ev_est_pruned x),
            e_est_pct = fmt_fixed 1 (ev_pct x) @ ''%'',
            e_notes = (if ev_notes x \<noteq> [] then join '' '' (ev_notes x) else '''')\<rparr>)"

text \<open>
  Rules by tag, as the specification names them: \<open>tagged t c\<close> says that the type tag
  of \<open>c\<close> is \<open>t\<close> up to letter case. The specification's FORBID_WHEN rule names a
  flag: \<open>has_if_flag\<close> says that a constraint tagged FORBID_WHEN has its \<open>if_flag\<close>
  (otherwise \<open>c["if_flag"]\<close> raises \<open>KeyError\<close>). \<open>not_forbid_if_sql\<close> selects the
  constraints that are not tagged FORBID_IF_SQL.
\<close>

definition tagged :: "string \<Rightarrow> constraint \<Rightarrow> bool" where
  "tagged t c = (case c_type c of None \<Rightarrow> False | Some ty \<Rightarrow> upper ty = t)"

definition has_if_flag :: "constraint \<Rightarrow> bool" where
  "has_if_flag c = (tagged ''FORBID_WHEN'' c \<longrightarrow> c_if_flag c \<noteq> None)"

definition not_forbid_if_sql :: "constraint \<Rightarrow> bool" where
  "not_forbid_if_sql c = (\<not> tagged ''FORBID_IF_SQL'' c)"

text \<open>
  Example inputs: a model with categories only, nineteen categories of seven values,
  a category of two values with one of three, and a model with one flag, one category and
  rules of both category-aware kinds, their tags in mixed, lower and upper case.
\<close>

definition category_model :: "(string \<times> string list) list \<Rightarrow> model" where
  "category_model cats =
     \<lparr>m_name = ''example'', m_flags = [], m_categories = cats, m_constraints = [],
      m_enumeration_limit_bits = None\<rparr>"

definition seven_by_nineteen :: "(string \<times> string list) list" where
  "seven_by_nineteen =
     map (\<lambda>i. (''c'' @ str_nat i, map (\<lambda>j. ''v'' @ str_nat j) [0 ..< 7])) [0 ..< 19]"

definition forbid_when_constraint ::
    "string \<Rightarrow> string \<Rightarrow> (string \<times> when_spec) list \<Rightarrow> constraint" where
  "forbid_when_constraint ty flag w =
     (typed_constraint ty)\<lparr>c_if_flag := Some flag, c_when := Some w\<rparr>"

definition forbid_if_sql_constraint :: "string \<Rightarrow> string \<Rightarrow> string \<Rightarrow> constraint" where
  "forbid_if_sql_constraint ty flag cond =
     (typed_constraint ty)\<lparr>c_if_flag := Some flag, c_condition := Some cond\<rparr>"

definition ward_model :: "constraint list \<Rightarrow> model" where
  "ward_model cs =
     \<lparr>m_name = ''ward'', m_flags = [''icu''], m_categories = [(''ward'', [''ICU'', ''GEN''])],
      m_constraints = cs, m_enumeration_limit_bits = None\<rparr>"

definition ward_rules :: "constraint list" where
  "ward_rules =
     [forbid_if_sql_constraint ''forbid_if_sql'' ''icu'' ''age < 18'',
      forbid_when_constraint ''Forbid_When'' ''icu'' [(''ward'', One ''GEN'')],
      forbid_if_sql_constraint ''FORBID_IF_SQL'' ''icu'' ''los > 30'']"

definition two_by_three :: "(string \<times> string list) list" where
  "two_by_three = [(''ward'', [''ICU'', ''GEN'']), (''site'', [''A'', ''B'', ''C''])]"

section \<open>Properties of the sanity estimates\<close>

lemma ebind_eq_Inr: "ebind x f = Inr y \<longleftrightarrow> (\<exists>v. x = Inr v \<and> f v = Inr y)"
  by (cases x) simp_all

lemma ebind_eq_Inl: "ebind x f = Inl e \<longleftrightarrow> x = Inl e \<or> (\<exists>v. x = Inr v \<and> f v = Inl e)"
  by (cases x) simp_all

lemma fold_leaves:
  "fold (\<lambda>(_, vals) n. n * max 1 (int (length vals))) cats a
     = a * prod_list (map (\<lambda>(_, vals). max 1 (int (length vals))) cats)"
  by (induction cats arbitrary: a) (auto simp: algebra_simps)

lemma count_category_leaves_prod:
  "count_category_leaves cats = prod_list (map (\<lambda>(_, vals). max 1 (int (length vals))) cats)"
  unfolding count_category_leaves_def fold_leaves by simp

lemma count_category_leaves_pos: "0 < count_category_leaves cats"
  unfolding count_category_leaves_prod
  by (induction cats) (auto simp: zero_less_mult_iff)

lemma prod_nonempty:
  "list_all (\<lambda>(_, vals). vals \<noteq> []) cats \<Longrightarrow>
     prod_list (map (\<lambda>(_, vals). max 1 (int (length vals))) cats)
       = prod_list (map (\<lambda>(_, vals). int (length vals)) cats)"
proof (induction cats)
  case Nil
  then show ?case by simp
next
  case (Cons c cats)
  obtain k vs where c: "c = (k, vs)" by (cases c)
  with Cons.prems have "vs \<noteq> []" by simp
  then have "max 1 (int (length vs)) = int (length vs)"
    by (cases vs) simp_all
  with Cons c show ?case by simp
qed

lemma pow2_pos: "0 < pow2 e"
  by (simp add: pow2_def)

lemma rnd_0: "rnd 0 = 0"
  by (simp add: rnd_def)

lemma round_half_even_of_int: "round_half_even (of_int k) = k"
  by (simp add: round_half_even_def)

lemma py_float_0: "py_float 0 = Inr 0"
  using pow2_pos [of 1024] by (simp add: py_float_def rnd_0)

lemma fmul_0_left: "fmul 0 y = 0"
  by (simp add: fmul_def rnd_0)

lemma fmul_0_right: "fmul x 0 = 0"
  by (simp add: fmul_def rnd_0)

lemma py_truediv_Inr: "b \<noteq> 0 \<Longrightarrow> py_truediv a b = Inr (rnd (of_int a / of_int b))"
  by (simp add: py_truediv_def)

lemma cond_fraction_Inr: "\<exists>q. cond_fraction cats col spec = Inr q"
  by (simp add: cond_fraction_def Let_def py_truediv_def)

lemma frac_cats_loop_Inr: "\<exists>r. frac_cats_loop cats acc items = Inr r"
proof (induction items arbitrary: acc)
  case Nil
  then show ?case by simp
next
  case (Cons it items)
  obtain col spec where it: "it = (col, spec)" by (cases it)
  obtain q where q: "cond_fraction cats col spec = Inr q"
    using cond_fraction_Inr by blast
  from Cons [of "fmul acc (py_min 1 q)"] it q show ?case by simp
qed

lemma type_upper_tagged: "t \<noteq> [] \<Longrightarrow> (type_upper c = t) = tagged t c"
  by (cases "c_type c") (auto simp: type_upper_def tagged_def upper_def)

lemma has_if_flag_alt: "has_if_flag c = (type_upper c = ''FORBID_WHEN'' \<longrightarrow> c_if_flag c \<noteq> None)"
  by (simp add: has_if_flag_def type_upper_tagged)

lemma forbid_loop_no_zde: "forbid_loop cats prev cs \<noteq> Inl ZeroDivisionError"
proof (induction cs)
  case Nil
  then show ?case by simp
next
  case (Cons c cs)
  show ?case
  proof (cases "type_upper c = ''FORBID_WHEN''")
    case False
    with Cons show ?thesis by simp
  next
    case True
    obtain r where r: "frac_cats_loop cats 1 (when_items c) = Inr r"
      using frac_cats_loop_Inr by blast
    from True r Cons show ?thesis
      by (cases "c_if_flag c"; cases "forbid_loop cats prev cs") simp_all
  qed
qed

lemma forbid_loop_Inr:
  "list_all has_if_flag cs \<Longrightarrow> \<exists>r. forbid_loop cats prev cs = Inr r"
proof (induction cs)
  case Nil
  then show ?case by simp
next
  case (Cons c cs)
  then obtain rest where rest: "forbid_loop cats prev cs = Inr rest" by auto
  show ?case
  proof (cases "type_upper c = ''FORBID_WHEN''")
    case False
    with rest show ?thesis by simp
  next
    case True
    with Cons.prems obtain flag where flag: "c_if_flag c = Some flag"
      by (auto simp: has_if_flag_alt)
    obtain r where r: "frac_cats_loop cats 1 (when_items c) = Inr r"
      using frac_cats_loop_Inr by blast
    from True flag r rest show ?thesis by simp
  qed
qed

lemma piece_Inr:
  "\<exists>p. (case its of
          [] \<Rightarrow> Inr []
        | (col, spec) # _ \<Rightarrow>
            ebind (cond_fraction cats col spec) (\<lambda>q.
              Inr [flag @ ''@'' @ fmt_fixed 2 (fmul q 100) @ ''%''])) = (Inr p :: py_error + string list)"
proof (cases its)
  case Nil
  then show ?thesis by simp
next
  case (Cons it rest)
  obtain col spec where it: "it = (col, spec)" by (cases it)
  obtain q where q: "cond_fraction cats col spec = Inr q"
    using cond_fraction_Inr by blast
  from Cons it q show ?thesis by simp
qed

lemma pieces_loop_no_zde: "pieces_loop cats cs \<noteq> Inl ZeroDivisionError"
proof (induction cs)
  case Nil
  then show ?case by simp
next
  case (Cons c cs)
  show ?case
  proof (cases "type_upper c = ''FORBID_WHEN''")
    case False
    with Cons show ?thesis by simp
  next
    case True
    show ?thesis
    proof (cases "c_if_flag c")
      case None
      with True show ?thesis by simp
    next
      case (Some flag)
      obtain p where p: "(case when_items c of
          [] \<Rightarrow> Inr []
        | (col, spec) # _ \<Rightarrow>
            ebind (cond_fraction cats col spec) (\<lambda>q.
              Inr [flag @ ''@'' @ fmt_fixed 2 (fmul q 100) @ ''%''])) = (Inr p :: py_error + string list)"
        using piece_Inr by blast
      from True Some p Cons show ?thesis
        by (cases "pieces_loop cats cs") simp_all
    qed
  qed
qed

lemma pieces_loop_Inr:
  "list_all has_if_flag cs \<Longrightarrow> \<exists>r. pieces_loop cats cs = Inr r"
proof (induction cs)
  case Nil
  then show ?case by simp
next
  case (Cons c cs)
  then obtain rest where rest: "pieces_loop cats cs = Inr rest" by auto
  show ?case
  proof (cases "type_upper c = ''FORBID_WHEN''")
    case False
    with rest show ?thesis by simp
  next
    case True
    with Cons.prems obtain flag where flag: "c_if_flag c = Some flag"
      by (auto simp: has_if_flag_alt)
    obtain p where p: "(case when_items c of
          [] \<Rightarrow> Inr []
        | (col, spec) # _ \<Rightarrow>
            ebind (cond_fraction cats col spec) (\<lambda>q.
              Inr [flag @ ''@'' @ fmt_fixed 2 (fmul q 100) @ ''%''])) = (Inr p :: py_error + string list)"
      using piece_Inr by blast
    from True flag p rest show ?thesis by simp
  qed
qed

lemma notes_of_no_zde: "notes_of cats cs \<noteq> Inl ZeroDivisionError"
  using pieces_loop_no_zde [of cats cs]
  by (cases "pieces_loop cats cs") (simp_all add: notes_of_def)

lemma notes_of_Inr: "list_all has_if_flag cs \<Longrightarrow> \<exists>r. notes_of cats cs = Inr r"
  using pieces_loop_Inr [of cs cats]
  by (auto simp: notes_of_def)

lemma prevalence_Inr:
  "pos f \<noteq> None \<Longrightarrow> \<exists>p. prevalence pos vm v f = Inr p \<and> (v \<le> 0 \<longrightarrow> p = 0)"
  by (auto simp: prevalence_def py_truediv_def)

lemma prev_loop_Inr:
  "\<forall>f\<in>set fs. pos f \<noteq> None \<Longrightarrow>
     \<exists>prev'. prev_loop pos vm v prev fs = Inr prev' \<and>
       (\<forall>k. (map_of prev' k = None) = (map_of prev k = None \<and> k \<notin> set fs)) \<and>
       (v \<le> 0 \<longrightarrow> (\<forall>k. map_of prev' k = (if k \<in> set fs then Some 0 else map_of prev k)))"
proof (induction fs arbitrary: prev)
  case Nil
  then show ?case by simp
next
  case (Cons f fs)
  then obtain p where p: "prevalence pos vm v f = Inr p" "v \<le> 0 \<longrightarrow> p = 0"
    using prevalence_Inr [of pos f vm v] by auto
  from Cons.prems have "\<forall>f\<in>set fs. pos f \<noteq> None" by simp
  from Cons.IH [OF this, of "AList.update f p prev"]
  obtain prev' where r: "prev_loop pos vm v (AList.update f p prev) fs = Inr prev'"
    and k: "\<forall>k. (map_of prev' k = None) = (map_of (AList.update f p prev) k = None \<and> k \<notin> set fs)"
    and z: "v \<le> 0 \<longrightarrow> (\<forall>k. map_of prev' k = (if k \<in> set fs then Some 0 else map_of (AList.update f p prev) k))"
    by blast
  have 1: "prev_loop pos vm v prev (f # fs) = Inr prev'"
    using p r by simp
  have 2: "\<forall>k. (map_of prev' k = None) = (map_of prev k = None \<and> k \<notin> set (f # fs))"
    using k by (auto simp: update_conv')
  have 3: "v \<le> 0 \<longrightarrow> (\<forall>k. map_of prev' k = (if k \<in> set (f # fs) then Some 0 else map_of prev k))"
    using z p(2) by (auto simp: update_conv')
  from 1 2 3 show ?case by blast
qed

lemma prev_parts_Inr:
  "\<forall>k\<in>set ks. map_of prev k \<noteq> None \<Longrightarrow> \<exists>parts. prev_parts prev ks = Inr parts"
proof (induction ks)
  case Nil
  then show ?case by simp
next
  case (Cons k ks)
  then obtain p rest where "map_of prev k = Some p" "prev_parts prev ks = Inr rest" by auto
  then show ?case by simp
qed

lemma prev_parts_zero:
  "\<forall>k\<in>set ks. map_of prev k = Some 0 \<Longrightarrow>
     prev_parts prev ks = Inr (map (\<lambda>k. k @ ''='' @ fmt_fixed 1 0 @ ''%'') ks)"
  by (induction ks) (simp_all add: fmul_0_left)

lemma bitpos_map_total: "\<forall>f\<in>set fs. bitpos_map fs f \<noteq> None"
  by (simp add: bitpos_map_None)

lemma py_float_no_zde: "py_float i \<noteq> Inl ZeroDivisionError"
  by (simp add: py_float_def Let_def)

lemma pct_Inr:
  "\<exists>p. (if (0::int) < tm then ebind (py_truediv er tm) (\<lambda>q. Inr (fmul q 100)) else Inr 0) = Inr p"
  by (simp add: py_truediv_def)

lemma estimate_vals_no_zde: "estimate_vals_of m vm \<noteq> Inl ZeroDivisionError"
proof -
  define v where "v = max 0 (int (length vm))"
  define tm where "tm = v * count_category_leaves (m_categories m)"
  obtain prev where prev: "prev_loop (bitpos_map (m_flags m)) vm v [] (m_flags m) = Inr prev"
    and keys: "\<forall>k. (map_of prev k = None) = (map_of [] k = (None :: rat option) \<and> k \<notin> set (m_flags m))"
    using prev_loop_Inr [OF bitpos_map_total, of "m_flags m" vm v "[]"] by blast
  from keys have "\<forall>k\<in>set (m_flags m). map_of prev k \<noteq> None" by simp
  then obtain parts where parts: "prev_parts prev (m_flags m) = Inr parts"
    using prev_parts_Inr by blast
  show ?thesis
  proof (cases "forbid_loop (m_categories m) prev (m_constraints m)")
    case (Inl e)
    with forbid_loop_no_zde [of "m_categories m" prev "m_constraints m"] have "e \<noteq> ZeroDivisionError"
      by auto
    with Inl prev show ?thesis
      by (simp add: estimate_vals_of_def Let_def v_def)
  next
    case fr: (Inr fracs)
    show ?thesis
    proof (cases "py_float tm")
      case (Inl e)
      with py_float_no_zde [of tm] have "e \<noteq> ZeroDivisionError" by auto
      with Inl prev fr show ?thesis
        by (simp add: estimate_vals_of_def Let_def v_def tm_def)
    next
      case pf: (Inr t)
      show ?thesis
      proof (cases "notes_of (m_categories m) (m_constraints m)")
        case (Inl e)
        with notes_of_no_zde [of "m_categories m" "m_constraints m"] have "e \<noteq> ZeroDivisionError"
          by auto
        with Inl prev fr pf parts show ?thesis
          by (simp add: estimate_vals_of_def Let_def v_def tm_def)
      next
        case (Inr ns)
        with prev fr pf parts show ?thesis
          by (auto simp add: estimate_vals_of_def Let_def v_def tm_def py_truediv_def)
      qed
    qed
  qed
qed

lemma estimate_sanity_no_zde: "estimate_sanity m vm \<noteq> Inl ZeroDivisionError"
  using estimate_vals_no_zde [of m vm]
  by (cases "estimate_vals_of m vm") (simp_all add: estimate_sanity_def)

lemma not_forbid_if_sql_alt: "not_forbid_if_sql c = (type_upper c \<noteq> ''FORBID_IF_SQL'')"
  by (simp add: not_forbid_if_sql_def type_upper_tagged)

lemma forbid_loop_filter:
  "forbid_loop cats prev (filter not_forbid_if_sql cs) = forbid_loop cats prev cs"
  by (induction cs) (auto simp: not_forbid_if_sql_alt)

lemma pieces_loop_filter:
  "pieces_loop cats (filter not_forbid_if_sql cs) = pieces_loop cats cs"
  by (induction cs) (auto simp: not_forbid_if_sql_alt)

lemma count_forbid_when_filter:
  "count_type ''FORBID_WHEN'' (filter not_forbid_if_sql cs) = count_type ''FORBID_WHEN'' cs"
  by (induction cs) (auto simp: not_forbid_if_sql_alt count_type_def)

lemma count_forbid_if_sql_filter:
  "count_type ''FORBID_IF_SQL'' (filter not_forbid_if_sql cs) = 0"
  by (induction cs) (auto simp: not_forbid_if_sql_alt count_type_def)

lemma notes_of_filter:
  "notes_of cats cs =
     ebind (notes_of cats (filter not_forbid_if_sql cs)) (\<lambda>n1.
       Inr (n1 @ (if count_type ''FORBID_IF_SQL'' cs \<noteq> 0 then
                    [''Excluded '' @ str_int (count_type ''FORBID_IF_SQL'' cs)
                       @ '' FORBID_IF_SQL rule(s) from estimate.'']
                  else [])))"
proof (cases "pieces_loop cats cs")
  case (Inl e)
  then show ?thesis
    by (simp add: notes_of_def pieces_loop_filter count_forbid_when_filter count_forbid_if_sql_filter)
next
  case (Inr ps)
  then show ?thesis
    by (simp add: notes_of_def pieces_loop_filter count_forbid_when_filter count_forbid_if_sql_filter)
qed

text \<open>Constraint lists that agree outside the FORBID_IF_SQL rules give the same estimate
  up to the notes.\<close>

lemma estimate_vals_of_cong:
  assumes "m_flags m' = m_flags m" "m_categories m' = m_categories m"
    and "filter not_forbid_if_sql (m_constraints m') = filter not_forbid_if_sql (m_constraints m)"
  shows "map_sum id (\<lambda>x. x\<lparr>ev_notes := []\<rparr>) (estimate_vals_of m' vm)
       = map_sum id (\<lambda>x. x\<lparr>ev_notes := []\<rparr>) (estimate_vals_of m vm)"
proof -
  have fl: "forbid_loop cats prev (m_constraints m') = forbid_loop cats prev (m_constraints m)" for cats prev
    using forbid_loop_filter [of cats prev "m_constraints m'"] forbid_loop_filter [of cats prev "m_constraints m"]
      assms(3) by simp
  define N where "N = notes_of (m_categories m) (filter not_forbid_if_sql (m_constraints m))"
  have n1: "notes_of (m_categories m) (m_constraints m') = ebind N (\<lambda>n1.
       Inr (n1 @ (if count_type ''FORBID_IF_SQL'' (m_constraints m') \<noteq> 0 then
                    [''Excluded '' @ str_int (count_type ''FORBID_IF_SQL'' (m_constraints m'))
                       @ '' FORBID_IF_SQL rule(s) from estimate.'']
                  else [])))"
    using notes_of_filter [of "m_categories m" "m_constraints m'"] assms(3) by (simp add: N_def)
  have n2: "notes_of (m_categories m) (m_constraints m) = ebind N (\<lambda>n1.
       Inr (n1 @ (if count_type ''FORBID_IF_SQL'' (m_constraints m) \<noteq> 0 then
                    [''Excluded '' @ str_int (count_type ''FORBID_IF_SQL'' (m_constraints m))
                       @ '' FORBID_IF_SQL rule(s) from estimate.'']
                  else [])))"
    using notes_of_filter [of "m_categories m" "m_constraints m"] by (simp add: N_def)
  show ?thesis
    unfolding estimate_vals_of_def Let_def assms(1,2) fl n1 n2
    by (cases N)
       (auto simp: ebind_def py_truediv_def split: sum.splits)
qed

lemma rnd_values:
  "rnd 1 = 1" "rnd 2 = 2" "rnd 3 = 3" "rnd 4 = 4" "rnd 6 = 6" "rnd 50 = 50" "rnd 75 = 75" "rnd 100 = 100"
  "rnd (1 / 2) = 1 / 2" "rnd (1 / 4) = 1 / 4" "rnd (3 / 4) = 3 / 4"
  by code_simp+

lemma rnd_seven_nineteen:
  "rnd 11398895185373143 = 11398895185373144"
  "rnd 11398895185373144 = 11398895185373144"
  "rnd (11398895185373144 / 11398895185373143) = 1"
  by code_simp+

lemma pow2_1024_large: "2 ^ 64 \<le> pow2 1024"
proof -
  have "(2::rat) ^ 64 \<le> 2 ^ 1024" by (rule power_increasing) simp_all
  then show ?thesis by (simp add: pow2_def)
qed

lemma py_float_small: "\<bar>rnd (of_int i)\<bar> < 2 ^ 64 \<Longrightarrow> py_float i = Inr (rnd (of_int i))"
  using pow2_1024_large by (simp add: py_float_def Let_def)

lemma digit_chars:
  "digit_char 0 = CHR ''0''" "digit_char 1 = CHR ''1''" "digit_char (Suc 0) = CHR ''1''" "digit_char 2 = CHR ''2''"
  "digit_char 3 = CHR ''3''" "digit_char 4 = CHR ''4''" "digit_char 5 = CHR ''5''"
  "digit_char 6 = CHR ''6''" "digit_char 7 = CHR ''7''" "digit_char 8 = CHR ''8''"
  "digit_char 9 = CHR ''9''"
  by code_simp+

lemma str_examples:
  "str_nat 0 = ''0''" "str_nat 1 = ''1''" "str_nat 100 = ''100''" "str_nat 75 = ''75''"
  by (simp_all add: str_nat.simps digit_chars)

lemma fmt_examples:
  "fmt_fixed (Suc 0) 0 = ''0.0''" "fmt_fixed (Suc 0) 100 = ''100.0''"
  "fmt_fixed (Suc 0) 50 = ''50.0''" "fmt_fixed (Suc 0) 75 = ''75.0''" "fmt_fixed 2 50 = ''50.00''"
  by (simp_all add: fmt_fixed_def Let_def round_half_even_def zfill_def str_nat.simps digit_chars)

lemma commas_examples:
  "fmt_commas 0 = ''0''" "fmt_commas 1 = ''1''" "fmt_commas 3 = ''3''" "fmt_commas 4 = ''4''"
  "fmt_commas (- 1) = ''-1''"
  "fmt_commas 11398895185373143 = ''11,398,895,185,373,143''"
  "fmt_commas 11398895185373144 = ''11,398,895,185,373,144''"
  by (simp_all add: fmt_commas_def commas_nat.simps zfill_def str_nat.simps digit_chars)

lemma round_half_even_nonneg: "0 \<le> x \<Longrightarrow> 0 \<le> round_half_even x"
  by (auto simp: round_half_even_def Let_def)

lemma round_half_even_le:
  assumes "x \<le> of_int N"
  shows "round_half_even x \<le> N"
proof -
  have f: "\<lfloor>x\<rfloor> \<le> N" using assms by (simp add: floor_le_iff)
  show ?thesis
  proof (cases "\<lfloor>x\<rfloor> = N")
    case True
    then have "of_int N \<le> x" by (metis of_int_floor_le)
    with assms have "x = of_int N" by simp
    then show ?thesis by (simp add: round_half_even_def)
  next
    case False
    with f have "\<lfloor>x\<rfloor> + 1 \<le> N" by simp
    then show ?thesis by (auto simp: round_half_even_def Let_def)
  qed
qed

lemma floor_log2_unit:
  assumes "0 < q" "q \<le> 1"
  shows "floor_log2 q \<le> 0"
proof -
  obtain n d where nd: "quotient_of q = (n, d)" by (cases "quotient_of q")
  then have d: "0 < d" and q: "q = of_int n / of_int d"
    using quotient_of_denom_pos [of q n d] quotient_of_div [of q n d] by auto
  from assms q d have n: "0 < n" "n \<le> d"
    by (simp_all add: zero_less_divide_iff)
  have "2 ^ nat (bitlen n - 1) \<le> n" using bitlen_bounds [of n] n by simp
  also have "n \<le> d" by (rule n)
  also have "d < 2 ^ nat (bitlen d)" using bitlen_bounds [of d] d by simp
  finally have "(2::int) ^ nat (bitlen n - 1) < 2 ^ nat (bitlen d)" .
  then have "nat (bitlen n - 1) < nat (bitlen d)"
    by (simp add: power_strict_increasing_iff)
  then have e0: "bitlen n - bitlen d \<le> 0" by simp
  then have "pow2 (bitlen n - bitlen d) \<le> 1"
    by (simp add: pow2_def)
  show ?thesis
    using e0 by (simp add: floor_log2_def nd Let_def)
qed

lemma rnd_unit:
  assumes "0 \<le> x" "x \<le> 1"
  shows "0 \<le> rnd x \<and> rnd x \<le> 1"
proof (cases "x = 0")
  case True
  then show ?thesis by (simp add: rnd_0)
next
  case False
  with assms have pos: "0 < x" by simp
  define e where "e = max (floor_log2 x - 52) (- 1074)"
  define k where "k = nat (- e)"
  have "e \<le> 0" using floor_log2_unit [OF pos assms(2)] by (simp add: e_def)
  then have p: "pow2 e = 1 / 2 ^ k"
    by (cases "e = 0") (simp_all add: pow2_def k_def)
  define m where "m = round_half_even (x / pow2 e)"
  have xe: "x / pow2 e = x * 2 ^ k" by (simp add: p)
  have "x * 2 ^ k \<le> 1 * 2 ^ k" using assms(2) by (intro mult_right_mono) simp_all
  then have "x / pow2 e \<le> of_int (2 ^ k)" by (simp add: xe)
  then have m1: "m \<le> 2 ^ k" unfolding m_def by (rule round_half_even_le)
  have "0 \<le> x / pow2 e" using assms(1) by (simp add: xe)
  then have m0: "0 \<le> m" unfolding m_def by (rule round_half_even_nonneg)
  have m': "round_half_even (x * 2 ^ k) = m" by (simp add: m_def xe)
  have r: "rnd x = of_int m / 2 ^ k"
    using pos False by (simp add: rnd_def Let_def e_def [symmetric] p m')
  have "(of_int m :: rat) \<le> of_int (2 ^ k)" using m1 by (simp only: of_int_le_iff)
  then have "(of_int m :: rat) \<le> 2 ^ k" by simp
  then have "(of_int m :: rat) / 2 ^ k \<le> 1" by (simp add: divide_le_eq)
  moreover have "0 \<le> (of_int m :: rat) / 2 ^ k" using m0 by simp
  ultimately show ?thesis by (simp add: r)
qed

lemma keep_step_unit:
  assumes "0 \<le> kp" "kp \<le> 1"
  shows "0 \<le> fmul kp (fsub 1 (py_max 0 (py_min 1 f))) \<and> fmul kp (fsub 1 (py_max 0 (py_min 1 f))) \<le> 1"
proof -
  define c where "c = py_max 0 (py_min 1 f)"
  have c: "0 \<le> c" "c \<le> 1" by (auto simp: c_def py_max_def py_min_def)
  then have s: "0 \<le> fsub 1 c \<and> fsub 1 c \<le> 1"
    unfolding fsub_def by (intro rnd_unit) simp_all
  then have "0 \<le> kp * fsub 1 c" "kp * fsub 1 c \<le> 1"
    using assms by (simp_all add: mult_le_one)
  then show ?thesis
    unfolding fmul_def c_def [symmetric] by (rule rnd_unit)
qed

lemma fold_keep_unit:
  "0 \<le> kp \<Longrightarrow> kp \<le> 1 \<Longrightarrow>
     0 \<le> fold (\<lambda>f kp. fmul kp (fsub 1 (py_max 0 (py_min 1 f)))) fracs kp \<and>
     fold (\<lambda>f kp. fmul kp (fsub 1 (py_max 0 (py_min 1 f)))) fracs kp \<le> 1"
proof (induction fracs arbitrary: kp)
  case Nil
  then show ?case by simp
next
  case (Cons f fracs)
  from keep_step_unit [OF Cons.prems, of f] Cons.IH show ?case by simp
qed

lemma keep_prob_of_unit: "0 \<le> keep_prob_of fracs \<and> keep_prob_of fracs \<le> 1"
  unfolding keep_prob_of_def by (rule fold_keep_unit) simp_all

text \<open>The rounding at known values: 0.1, and the ties 2^53 + 1 and 2^53 + 3, which go to
  the even significand.\<close>

lemma rnd_conformance:
  "rnd (1 / 10) = 3602879701896397 / 36028797018963968"
  "rnd 9007199254740993 = 9007199254740992"
  "rnd 9007199254740995 = 9007199254740996"
  by code_simp+

lemma prod_list_const: "prod_list (map (\<lambda>_. c) xs) = (c::int) ^ length xs"
  by (induction xs) simp_all

lemma count_seven_by_nineteen: "count_category_leaves seven_by_nineteen = 11398895185373143"
proof -
  have "count_category_leaves seven_by_nineteen = prod_list (map (\<lambda>_. 7) [0 ..< 19 :: nat])"
    unfolding count_category_leaves_prod seven_by_nineteen_def map_map
    by (simp add: comp_def)
  also have "\<dots> = 7 ^ 19" by (simp only: prod_list_const) simp
  finally show ?thesis by simp
qed

lemma enumerate_category_model: "enumerate_valid_masks (category_model cats) = Inr [0]"
  by (simp add: enumerate_valid_masks_def category_model_def limit_bits_def ok_def)

lemma estimate_vals_category_model:
  assumes "count_category_leaves cats = n"
    and "rnd (of_int n) = of_int k" and "\<bar>of_int k :: rat\<bar> < 2 ^ 64"
    and "rnd (of_int k) = of_int k"
    and "fmul (rnd (of_int k / of_int n)) 100 = p"
  shows "estimate_vals_of (category_model cats) [0] =
     Inr \<lparr>ev_n_eff = n, ev_theoretical_max = n, ev_prev = [], ev_keep_prob = 1,
          ev_est_remaining = k, ev_est_pruned = n - k, ev_prev_line = '''', ev_notes = [],
          ev_pct = p\<rparr>"
proof -
  have pos: "0 < n" using count_category_leaves_pos [of cats] assms(1) by simp
  have pf: "py_float n = Inr (of_int k)"
    using py_float_small [of n] assms(2,3) by simp
  have er: "round_half_even (fmul (of_int k) 1) = k"
    using assms(4) by (simp add: fmul_def round_half_even_of_int)
  have nt: "notes_of cats [] = Inr []"
    by (simp add: notes_of_def count_type_def)
  have pd: "py_truediv k n = Inr (rnd (of_int k / of_int n))"
    using pos by (simp add: py_truediv_def)
  show ?thesis
    unfolding estimate_vals_of_def Let_def
    using pos
    by (simp add: category_model_def assms(1,5) pf er nt pd keep_prob_of_def)
qed

lemma estimate_sanity_vals:
  "estimate_vals_of m vm = Inr x \<Longrightarrow>
     estimate_sanity m vm =
       Inr \<lparr>e_prev_line = ev_prev_line x,
            e_theoretical_max = fmt_commas (ev_theoretical_max x),
            e_est_remaining = fmt_commas (ev_est_remaining x),
            e_est_pruned = fmt_commas (ev_est_pruned x),
            e_est_pct = fmt_fixed 1 (ev_pct x) @ ''%'',
            e_notes = (if ev_notes x \<noteq> [] then join '' '' (ev_notes x) else '''')\<rparr>"
  by (simp add: estimate_sanity_def)

lemma estimate_vals_fields:
  assumes "estimate_vals_of m vm = Inr x"
  shows "ev_n_eff x = count_category_leaves (m_categories m)"
    and "ev_theoretical_max x = int (length vm) * count_category_leaves (m_categories m)"
    and "ev_est_pruned x = ev_theoretical_max x - ev_est_remaining x"
    and "ev_theoretical_max x \<le> 0 \<Longrightarrow> ev_pct x = 0"
    and "notes_of (m_categories m) (m_constraints m) = Inr (ev_notes x)"
  using assms
  unfolding estimate_vals_of_def Let_def
  by (auto simp: ebind_eq_Inr split: if_splits)

text \<open>
  C6. \<open>keep_prob\<close>, the product of the factors 1 - f with every f clamped to [0, 1],
  lies in [0, 1] for every list of pruned fractions. The bounds
  0 \<le> \<open>est_remaining\<close> \<le> \<open>theoretical_max\<close> and \<open>est_pruned\<close> \<ge> 0 do not follow: the
  rounding of \<open>theoretical_max * keep_prob\<close> breaks them. For the model with no flags and
  nineteen categories of seven values the enumerator returns the single mask 0;
  \<open>theoretical_max\<close> is 7^19 = 11398895185373143, above 2^53, its conversion to a float
  rounds it up to 11398895185373144, and with \<open>keep_prob\<close> equal to 1 the estimate has
  \<open>est_remaining\<close> = 11398895185373144, larger than \<open>theoretical_max\<close>, and
  \<open>est_pruned\<close> = - 1.
\<close>

theorem estimate_exceeds_theoretical_max:
  "0 \<le> keep_prob_of fracs \<and> keep_prob_of fracs \<le> 1 \<and>
   enumerate_valid_masks (category_model seven_by_nineteen) = Inr [0] \<and>
   estimate_vals_of (category_model seven_by_nineteen) [0] =
     Inr \<lparr>ev_n_eff = 11398895185373143, ev_theoretical_max = 11398895185373143, ev_prev = [],
          ev_keep_prob = 1, ev_est_remaining = 11398895185373144, ev_est_pruned = - 1,
          ev_prev_line = '''', ev_notes = [], ev_pct = 100\<rparr> \<and>
   estimate_sanity (category_model seven_by_nineteen) [0] =
     Inr \<lparr>e_prev_line = '''', e_theoretical_max = ''11,398,895,185,373,143'',
          e_est_remaining = ''11,398,895,185,373,144'', e_est_pruned = ''-1'',
          e_est_pct = ''100.0%'', e_notes = ''''\<rparr>"
proof -
  have v: "estimate_vals_of (category_model seven_by_nineteen) [0] =
     Inr \<lparr>ev_n_eff = 11398895185373143, ev_theoretical_max = 11398895185373143, ev_prev = [],
          ev_keep_prob = 1, ev_est_remaining = 11398895185373144, ev_est_pruned = - 1,
          ev_prev_line = '''', ev_notes = [], ev_pct = 100\<rparr>"
    using estimate_vals_category_model [OF count_seven_by_nineteen, of 11398895185373144 100]
    by (simp add: rnd_seven_nineteen rnd_values fmul_def)
  from estimate_sanity_vals [OF v] have s: "estimate_sanity (category_model seven_by_nineteen) [0] =
     Inr \<lparr>e_prev_line = '''', e_theoretical_max = ''11,398,895,185,373,143'',
          e_est_remaining = ''11,398,895,185,373,144'', e_est_pruned = ''-1'',
          e_est_pct = ''100.0%'', e_notes = ''''\<rparr>"
    by (simp add: commas_examples fmt_examples)
  from keep_prob_of_unit [of fracs] have k: "0 \<le> keep_prob_of fracs" "keep_prob_of fracs \<le> 1"
    by simp_all
  from k enumerate_category_model [of seven_by_nineteen] v s show ?thesis by (intro conjI)
qed

lemma round_half_even_0: "round_half_even 0 = 0"
  using round_half_even_of_int [of 0] by simp

lemma estimate_vals_empty:
  assumes "list_all has_if_flag (m_constraints m)"
  shows "\<exists>prev fracs ns. estimate_vals_of m [] =
     Inr \<lparr>ev_n_eff = count_category_leaves (m_categories m), ev_theoretical_max = 0,
          ev_prev = prev, ev_keep_prob = keep_prob_of fracs, ev_est_remaining = 0,
          ev_est_pruned = 0,
          ev_prev_line = join '', '' (map (\<lambda>k. k @ ''=0.0%'') (m_flags m)),
          ev_notes = ns, ev_pct = 0\<rparr> \<and>
     (\<forall>f\<in>set (m_flags m). map_of prev f = Some 0)"
proof -
  obtain prev where prev: "prev_loop (bitpos_map (m_flags m)) [] 0 [] (m_flags m) = Inr prev"
    and z: "(0::int) \<le> 0 \<longrightarrow> (\<forall>k. map_of prev k = (if k \<in> set (m_flags m) then Some 0 else map_of [] k))"
    using prev_loop_Inr [OF bitpos_map_total, of "m_flags m" "[]" 0 "[]"] by blast
  from z have zero: "\<forall>f\<in>set (m_flags m). map_of prev f = Some 0" by simp
  have parts: "prev_parts prev (m_flags m) = Inr (map (\<lambda>k. k @ ''=0.0%'') (m_flags m))"
    using prev_parts_zero [OF zero] by (simp add: fmt_examples)
  obtain fracs where fracs: "forbid_loop (m_categories m) prev (m_constraints m) = Inr fracs"
    using forbid_loop_Inr [OF assms] by blast
  obtain ns where ns: "notes_of (m_categories m) (m_constraints m) = Inr ns"
    using notes_of_Inr [OF assms] by blast
  have "estimate_vals_of m [] =
     Inr \<lparr>ev_n_eff = count_category_leaves (m_categories m), ev_theoretical_max = 0,
          ev_prev = prev, ev_keep_prob = keep_prob_of fracs, ev_est_remaining = 0,
          ev_est_pruned = 0,
          ev_prev_line = join '', '' (map (\<lambda>k. k @ ''=0.0%'') (m_flags m)),
          ev_notes = ns, ev_pct = 0\<rparr>"
    unfolding estimate_vals_of_def Let_def
    by (simp add: prev parts fracs ns py_float_0 fmul_0_left round_half_even_0)
  with zero show ?thesis by blast
qed

lemma upper_FORBID:
  "upper ''Forbid_When'' = ''FORBID_WHEN''"
  "upper ''forbid_if_sql'' = ''FORBID_IF_SQL''"
  "upper ''FORBID_IF_SQL'' = ''FORBID_IF_SQL''"
  by code_simp+

lemma type_upper_examples:
  "type_upper (forbid_when_constraint ty flag w) = upper ty"
  "type_upper (forbid_if_sql_constraint ty flag cond) = upper ty"
  by (simp_all add: type_upper_def forbid_when_constraint_def forbid_if_sql_constraint_def
      typed_constraint_def)

lemma forbid_when_fields:
  "c_if_flag (forbid_when_constraint ty flag w) = Some flag"
  "when_items (forbid_when_constraint ty flag w) = w"
  by (simp_all add: forbid_when_constraint_def typed_constraint_def when_items_def)

lemma bitpos_icu: "bitpos_map [''icu''] ''icu'' = Some 0"
  using bitpos_map_distinct [of "[''icu'']" 0] by simp

lemma estimate_vals_ward:
  "estimate_vals_of (ward_model ward_rules) [0, 1] =
     Inr \<lparr>ev_n_eff = 2, ev_theoretical_max = 4, ev_prev = [(''icu'', 1 / 2)],
          ev_keep_prob = 3 / 4, ev_est_remaining = 3, ev_est_pruned = 1,
          ev_prev_line = ''icu=50.0%'',
          ev_notes = [''Applied FORBID_WHEN estimates: icu@50.00%.'',
                      ''Excluded 2 FORBID_IF_SQL rule(s) from estimate.''],
          ev_pct = 75\<rparr>"
proof -
  have pf: "py_float 4 = Inr 4"
    using py_float_small [of 4] by (simp add: rnd_values)
  have prev: "prevalence (bitpos_map [''icu'']) [0, 1] 2 ''icu'' = Inr (1 / 2)"
    by (simp add: prevalence_def bitpos_icu bit_val_def py_truediv_def rnd_values)
  have cf: "cond_fraction [(''ward'', [''ICU'', ''GEN''])] ''ward'' (One ''GEN'') = Inr (1 / 2)"
    by (simp add: cond_fraction_def spec_values_def py_truediv_def rnd_values)
  have fl: "forbid_loop [(''ward'', [''ICU'', ''GEN''])] [(''icu'', 1 / 2)] ward_rules = Inr [1 / 4]"
    by (simp add: ward_rules_def type_upper_examples upper_FORBID forbid_when_fields cf fmul_def py_min_def
        prev_get_def rnd_values)
  have kp: "keep_prob_of [1 / 4] = 3 / 4"
    by (simp add: keep_prob_of_def fmul_def fsub_def py_min_def py_max_def rnd_values)
  have er: "round_half_even (fmul 4 (3 / 4)) = 3"
    using round_half_even_of_int [of 3] by (simp add: fmul_def rnd_values)
  have fh: "fmul (1 / 2) 100 = 50"
    by (simp add: fmul_def rnd_values)
  have pl: "pieces_loop [(''ward'', [''ICU'', ''GEN''])] ward_rules = Inr [''icu@50.00%'']"
    by (simp add: ward_rules_def type_upper_examples upper_FORBID forbid_when_fields cf fmul_def
        rnd_values fmt_examples)
  have ns: "notes_of [(''ward'', [''ICU'', ''GEN''])] ward_rules =
      Inr [''Applied FORBID_WHEN estimates: icu@50.00%.'',
           ''Excluded 2 FORBID_IF_SQL rule(s) from estimate.'']"
    unfolding notes_of_def pl
    by (simp add: count_type_def ward_rules_def type_upper_examples upper_FORBID str_int_def str_nat.simps digit_chars)
  have pct: "py_truediv 3 4 = Inr (3 / 4)" "fmul (3 / 4) 100 = 75"
    by (simp_all add: py_truediv_def fmul_def rnd_values)
  show ?thesis
    unfolding estimate_vals_of_def Let_def
    by (simp add: ward_model_def count_category_leaves_def prev fl kp pf er fh fmt_examples ns pct)
qed

lemma estimate_vals_one:
  assumes "count_category_leaves cats = 1"
  shows "estimate_vals_of (category_model cats) [0] =
     Inr \<lparr>ev_n_eff = 1, ev_theoretical_max = 1, ev_prev = [], ev_keep_prob = 1,
          ev_est_remaining = 1, ev_est_pruned = 0, ev_prev_line = '''', ev_notes = [],
          ev_pct = 100\<rparr>"
  using estimate_vals_category_model [OF assms, of 1 100]
  by (simp add: rnd_values fmul_def)

text \<open>
  C5 as stated fails: one category without values has cardinality 0, so the product of
  the cardinalities is 0, but \<open>count_category_leaves\<close> counts it as 1 and the estimate
  for the mask list [0] has \<open>n_eff\<close> = 1 and \<open>theoretical_max\<close> = 1.
\<close>

theorem empty_category_counts_one:
  "estimate_vals_of (category_model [(''site'', [])]) [0] =
     Inr \<lparr>ev_n_eff = 1, ev_theoretical_max = 1, ev_prev = [], ev_keep_prob = 1,
          ev_est_remaining = 1, ev_est_pruned = 0, ev_prev_line = '''', ev_notes = [],
          ev_pct = 100\<rparr> \<and>
   estimate_sanity (category_model [(''site'', [])]) [0] =
     Inr \<lparr>e_prev_line = '''', e_theoretical_max = ''1'', e_est_remaining = ''1'',
          e_est_pruned = ''0'', e_est_pct = ''100.0%'', e_notes = ''''\<rparr> \<and>
   int (length [0 :: int]) * prod_list (map (int \<circ> length \<circ> snd) [(''site'', [] :: string list)]) = 0"
proof -
  have c: "count_category_leaves [(''site'', [])] = 1"
    by (simp add: count_category_leaves_def)
  note v = estimate_vals_one [OF c]
  from estimate_sanity_vals [OF v]
  have s: "estimate_sanity (category_model [(''site'', [])]) [0] =
     Inr \<lparr>e_prev_line = '''', e_theoretical_max = ''1'', e_est_remaining = ''1'',
          e_est_pruned = ''0'', e_est_pct = ''100.0%'', e_notes = ''''\<rparr>"
    by (simp add: commas_examples fmt_examples)
  have p: "int (length [0 :: int]) * prod_list (map (int \<circ> length \<circ> snd) [(''site'', [] :: string list)]) = 0"
    by simp
  from v s p show ?thesis by (intro conjI)
qed

text \<open>
  C5, amended. \<open>count_category_leaves\<close> is the product over the declared categories of
  max(1, number of values), 1 when there are no categories, and the product of the
  cardinalities when every category has at least one value. Whenever \<open>estimate_sanity\<close>
  returns, its \<open>n_eff\<close> is that number, its \<open>theoretical_max\<close> is the number of valid masks
  times that number, and the entry \<open>theoretical_max\<close> of the result is that product
  written with thousands separators.
\<close>

theorem theoretical_max_product:
  "count_category_leaves (m_categories m) =
     prod_list (map (\<lambda>(name, vals). max 1 (int (length vals))) (m_categories m)) \<and>
   (m_categories m = [] \<longrightarrow> count_category_leaves (m_categories m) = 1) \<and>
   (list_all (\<lambda>(name, vals). vals \<noteq> []) (m_categories m) \<longrightarrow>
      count_category_leaves (m_categories m) =
        prod_list (map (\<lambda>(name, vals). int (length vals)) (m_categories m))) \<and>
   (\<forall>x. estimate_vals_of m vm = Inr x \<longrightarrow>
      ev_n_eff x = count_category_leaves (m_categories m) \<and>
      ev_theoretical_max x = int (length vm) * count_category_leaves (m_categories m)) \<and>
   (\<forall>e. estimate_sanity m vm = Inr e \<longrightarrow>
      e_theoretical_max e = fmt_commas (int (length vm) * count_category_leaves (m_categories m)))"
proof (intro conjI allI impI)
  show "count_category_leaves (m_categories m) =
     prod_list (map (\<lambda>(name, vals). max 1 (int (length vals))) (m_categories m))"
    by (rule count_category_leaves_prod)
next
  assume "m_categories m = []"
  then show "count_category_leaves (m_categories m) = 1"
    by (simp add: count_category_leaves_def)
next
  assume "list_all (\<lambda>(name, vals). vals \<noteq> []) (m_categories m)"
  then show "count_category_leaves (m_categories m) =
        prod_list (map (\<lambda>(name, vals). int (length vals)) (m_categories m))"
    unfolding count_category_leaves_prod by (rule prod_nonempty)
next
  fix x assume "estimate_vals_of m vm = Inr x"
  then show "ev_n_eff x = count_category_leaves (m_categories m)"
    by (rule estimate_vals_fields(1))
next
  fix x assume "estimate_vals_of m vm = Inr x"
  then show "ev_theoretical_max x = int (length vm) * count_category_leaves (m_categories m)"
    by (rule estimate_vals_fields(2))
next
  fix e assume e: "estimate_sanity m vm = Inr e"
  then obtain x where x: "estimate_vals_of m vm = Inr x"
    by (auto simp: estimate_sanity_def ebind_eq_Inr)
  from estimate_sanity_vals [OF x] e
  have "e_theoretical_max e = fmt_commas (ev_theoretical_max x)"
    by simp
  then show "e_theoretical_max e = fmt_commas (int (length vm) * count_category_leaves (m_categories m))"
    by (simp only: estimate_vals_fields(2) [OF x])
qed

lemma count_two_by_three: "count_category_leaves two_by_three = 6"
  by (simp add: count_category_leaves_def two_by_three_def)

lemma estimate_vals_two_by_three:
  "estimate_vals_of (category_model two_by_three) [0] =
     Inr \<lparr>ev_n_eff = 6, ev_theoretical_max = 6, ev_prev = [], ev_keep_prob = 1,
          ev_est_remaining = 6, ev_est_pruned = 0, ev_prev_line = '''', ev_notes = [],
          ev_pct = 100\<rparr>"
  using estimate_vals_category_model [OF count_two_by_three, of 6 100]
  by (simp add: rnd_values fmul_def)

text \<open>
  A category of two values and one of three, no flags and the mask list [0]: every
  category has a value, \<open>n_eff\<close> and \<open>theoretical_max\<close> are 2 * 3 = 6.
\<close>

theorem theoretical_max_product_witness:
  "estimate_vals_of (category_model two_by_three) [0] =
     Inr \<lparr>ev_n_eff = 6, ev_theoretical_max = 6, ev_prev = [], ev_keep_prob = 1,
          ev_est_remaining = 6, ev_est_pruned = 0, ev_prev_line = '''', ev_notes = [],
          ev_pct = 100\<rparr> \<and>
   list_all (\<lambda>(name, vals). vals \<noteq> []) (m_categories (category_model two_by_three)) \<and>
   count_category_leaves (m_categories (category_model two_by_three)) = 2 * 3 \<and>
   int (length [0 :: int]) * count_category_leaves (m_categories (category_model two_by_three)) = 6"
proof -
  note v = estimate_vals_two_by_three
  have ne: "list_all (\<lambda>(name, vals). vals \<noteq> []) (m_categories (category_model two_by_three))"
    by (simp add: category_model_def two_by_three_def)
  from theoretical_max_product [of "category_model two_by_three" "[0]"] ne
  have c: "count_category_leaves (m_categories (category_model two_by_three)) =
        prod_list (map (\<lambda>(name, vals). int (length vals)) (m_categories (category_model two_by_three)))"
    by blast
  have p: "prod_list (map (\<lambda>(name, vals). int (length vals)) (m_categories (category_model two_by_three))) = 2 * 3"
    by (simp add: category_model_def two_by_three_def)
  from c p have c': "count_category_leaves (m_categories (category_model two_by_three)) = 2 * 3"
    by (rule trans)
  from theoretical_max_product [of "category_model two_by_three" "[0]"] v
  have t: "int (length [0 :: int]) * count_category_leaves (m_categories (category_model two_by_three)) = 6"
    by simp
  from v ne c' t show ?thesis by (intro conjI)
qed

lemma map_sum_proj:
  assumes "map_sum id g a = map_sum id g b" and "\<And>x. h x = k (g x)"
  shows "map_sum id h a = map_sum id h b"
  using assms by (cases a; cases b) simp_all

lemma estimate_sanity_cong:
  assumes "map_sum id (\<lambda>x. x\<lparr>ev_notes := []\<rparr>) (estimate_vals_of m' vm)
         = map_sum id (\<lambda>x. x\<lparr>ev_notes := []\<rparr>) (estimate_vals_of m vm)"
  shows "map_sum id (\<lambda>e. e\<lparr>e_notes := ''''\<rparr>) (estimate_sanity m' vm)
       = map_sum id (\<lambda>e. e\<lparr>e_notes := ''''\<rparr>) (estimate_sanity m vm)"
proof (cases "estimate_vals_of m vm")
  case (Inl err)
  with assms have "estimate_vals_of m' vm = Inl err"
    by (cases "estimate_vals_of m' vm") simp_all
  with Inl show ?thesis by (simp add: estimate_sanity_def)
next
  case (Inr x)
  with assms obtain x' where x': "estimate_vals_of m' vm = Inr x'" "x'\<lparr>ev_notes := []\<rparr> = x\<lparr>ev_notes := []\<rparr>"
    by (cases "estimate_vals_of m' vm") simp_all
  from x'(2) have "ev_prev_line x' = ev_prev_line x" "ev_theoretical_max x' = ev_theoretical_max x"
    "ev_est_remaining x' = ev_est_remaining x" "ev_est_pruned x' = ev_est_pruned x"
    "ev_pct x' = ev_pct x"
    by (cases x, cases x', simp)+
  with Inr x'(1) show ?thesis
    by (simp add: estimate_sanity_def)
qed

text \<open>
  C7. Two models with the same flags and categories whose constraints differ only in
  FORBID_IF_SQL rules (the lists are equal once those rules are removed) give the same
  estimate: the same error, or results that agree on everything but the notes, in the
  local values (\<open>est_remaining\<close> and \<open>est_pruned\<close> among them) and in the returned
  dictionary. When the model has n FORBID_IF_SQL rules and n is not 0, the notes of a
  returned estimate are the notes of the model without those rules followed by
  "Excluded n FORBID_IF_SQL rule(s) from estimate.", joined with blanks in the result.
\<close>

theorem forbid_if_sql_excluded:
  "(m_flags m' = m_flags m \<and> m_categories m' = m_categories m \<and>
    filter not_forbid_if_sql (m_constraints m') = filter not_forbid_if_sql (m_constraints m) \<longrightarrow>
      map_sum id (\<lambda>x. x\<lparr>ev_notes := []\<rparr>) (estimate_vals_of m' vm)
        = map_sum id (\<lambda>x. x\<lparr>ev_notes := []\<rparr>) (estimate_vals_of m vm) \<and>
      map_sum id ev_est_remaining (estimate_vals_of m' vm)
        = map_sum id ev_est_remaining (estimate_vals_of m vm) \<and>
      map_sum id ev_est_pruned (estimate_vals_of m' vm)
        = map_sum id ev_est_pruned (estimate_vals_of m vm) \<and>
      map_sum id (\<lambda>e. e\<lparr>e_notes := ''''\<rparr>) (estimate_sanity m' vm)
        = map_sum id (\<lambda>e. e\<lparr>e_notes := ''''\<rparr>) (estimate_sanity m vm)) \<and>
   (\<forall>x e n. estimate_vals_of m vm = Inr x \<and> estimate_sanity m vm = Inr e \<and>
      n = int (length (filter (tagged ''FORBID_IF_SQL'') (m_constraints m))) \<and>
      n \<noteq> 0 \<longrightarrow>
        (\<exists>pre. notes_of (m_categories m) (filter not_forbid_if_sql (m_constraints m)) = Inr pre \<and>
           ev_notes x = pre @ [''Excluded '' @ str_int n @ '' FORBID_IF_SQL rule(s) from estimate.''] \<and>
           e_notes e = join '' '' (pre @ [''Excluded '' @ str_int n
                                          @ '' FORBID_IF_SQL rule(s) from estimate.''])))"
proof (intro conjI allI impI)
  assume a: "m_flags m' = m_flags m \<and> m_categories m' = m_categories m \<and>
    filter not_forbid_if_sql (m_constraints m') = filter not_forbid_if_sql (m_constraints m)"
  then have eq: "map_sum id (\<lambda>x. x\<lparr>ev_notes := []\<rparr>) (estimate_vals_of m' vm)
        = map_sum id (\<lambda>x. x\<lparr>ev_notes := []\<rparr>) (estimate_vals_of m vm)"
    using estimate_vals_of_cong [of m' m vm] by blast
  show "map_sum id (\<lambda>x. x\<lparr>ev_notes := []\<rparr>) (estimate_vals_of m' vm)
        = map_sum id (\<lambda>x. x\<lparr>ev_notes := []\<rparr>) (estimate_vals_of m vm)"
    by (rule eq)
  show "map_sum id ev_est_remaining (estimate_vals_of m' vm)
        = map_sum id ev_est_remaining (estimate_vals_of m vm)"
    using eq by (rule map_sum_proj [where k = ev_est_remaining]) simp
  show "map_sum id ev_est_pruned (estimate_vals_of m' vm)
        = map_sum id ev_est_pruned (estimate_vals_of m vm)"
    using eq by (rule map_sum_proj [where k = ev_est_pruned]) simp
  show "map_sum id (\<lambda>e. e\<lparr>e_notes := ''''\<rparr>) (estimate_sanity m' vm)
        = map_sum id (\<lambda>e. e\<lparr>e_notes := ''''\<rparr>) (estimate_sanity m vm)"
    using eq by (rule estimate_sanity_cong)
next
  fix x e n
  assume a: "estimate_vals_of m vm = Inr x \<and> estimate_sanity m vm = Inr e \<and>
      n = int (length (filter (tagged ''FORBID_IF_SQL'') (m_constraints m))) \<and>
      n \<noteq> 0"
  then have x: "estimate_vals_of m vm = Inr x" and e: "estimate_sanity m vm = Inr e"
    and n: "count_type ''FORBID_IF_SQL'' (m_constraints m) = n" and n0: "n \<noteq> 0"
    by (auto simp: count_type_def type_upper_tagged)
  let ?excl = "''Excluded '' @ str_int n @ '' FORBID_IF_SQL rule(s) from estimate.''"
  from estimate_vals_fields(5) [OF x]
  have "notes_of (m_categories m) (m_constraints m) = Inr (ev_notes x)" .
  then have "ebind (notes_of (m_categories m) (filter not_forbid_if_sql (m_constraints m)))
        (\<lambda>n1. Inr (n1 @ [?excl])) = Inr (ev_notes x)"
    using notes_of_filter [of "m_categories m" "m_constraints m"] n n0 by simp
  then obtain pre where pre: "notes_of (m_categories m) (filter not_forbid_if_sql (m_constraints m)) = Inr pre"
    and nx: "ev_notes x = pre @ [?excl]"
    by (auto simp: ebind_eq_Inr)
  from estimate_sanity_vals [OF x] e
  have "e_notes e = (if ev_notes x \<noteq> [] then join '' '' (ev_notes x) else '''')"
    by simp
  with nx have ne: "e_notes e = join '' '' (pre @ [?excl])"
    by simp
  from pre nx ne
  show "\<exists>pre. notes_of (m_categories m) (filter not_forbid_if_sql (m_constraints m)) = Inr pre \<and>
           ev_notes x = pre @ [?excl] \<and> e_notes e = join '' '' (pre @ [?excl])"
    by blast
qed

lemma estimate_sanity_ward:
  "estimate_sanity (ward_model ward_rules) [0, 1] =
     Inr \<lparr>e_prev_line = ''icu=50.0%'', e_theoretical_max = ''4'', e_est_remaining = ''3'',
          e_est_pruned = ''1'', e_est_pct = ''75.0%'',
          e_notes = ''Applied FORBID_WHEN estimates: icu@50.00%. Excluded 2 FORBID_IF_SQL rule(s) from estimate.''\<rparr>"
  using estimate_sanity_vals [OF estimate_vals_ward]
  by (simp add: commas_examples fmt_examples)

lemma tagged_examples:
  "tagged t (forbid_when_constraint ty flag w) = (upper ty = t)"
  "tagged t (forbid_if_sql_constraint ty flag cond) = (upper ty = t)"
  by (simp_all add: tagged_def forbid_when_constraint_def forbid_if_sql_constraint_def
      typed_constraint_def)

lemma count_ward_rules:
  "int (length (filter (tagged ''FORBID_IF_SQL'') ward_rules)) = 2"
  by (simp add: ward_rules_def tagged_examples upper_FORBID)

lemma filter_ward_rules:
  "filter not_forbid_if_sql ward_rules =
     [forbid_when_constraint ''Forbid_When'' ''icu'' [(''ward'', One ''GEN'')]]"
  by (simp add: ward_rules_def not_forbid_if_sql_def tagged_examples upper_FORBID)

lemma str_int_2: "str_int 2 = ''2''"
  by (simp add: str_int_def str_nat.simps digit_chars)

text \<open>
  One flag, one category of two values, one FORBID_WHEN rule between two FORBID_IF_SQL
  rules (tags in mixed, lower and upper case), masks [0, 1]: without the FORBID_IF_SQL rules the estimate has the same numbers
  (3 remaining and 1 pruned of 4), and with them the notes end with the count 2.
\<close>

theorem forbid_if_sql_excluded_witness:
  "map_sum id (\<lambda>x. x\<lparr>ev_notes := []\<rparr>)
     (estimate_vals_of (ward_model [forbid_when_constraint ''Forbid_When'' ''icu'' [(''ward'', One ''GEN'')]]) [0, 1]) =
     Inr \<lparr>ev_n_eff = 2, ev_theoretical_max = 4, ev_prev = [(''icu'', 1 / 2)],
          ev_keep_prob = 3 / 4, ev_est_remaining = 3, ev_est_pruned = 1,
          ev_prev_line = ''icu=50.0%'', ev_notes = [], ev_pct = 75\<rparr> \<and>
   map_sum id ev_est_remaining
     (estimate_vals_of (ward_model [forbid_when_constraint ''Forbid_When'' ''icu'' [(''ward'', One ''GEN'')]]) [0, 1]) = Inr 3 \<and>
   map_sum id ev_est_pruned
     (estimate_vals_of (ward_model [forbid_when_constraint ''Forbid_When'' ''icu'' [(''ward'', One ''GEN'')]]) [0, 1]) = Inr 1 \<and>
   notes_of (m_categories (ward_model ward_rules)) (filter not_forbid_if_sql ward_rules) =
     Inr [''Applied FORBID_WHEN estimates: icu@50.00%.''] \<and>
   map_sum id e_notes (estimate_sanity (ward_model ward_rules) [0, 1]) =
     Inr (join '' '' [''Applied FORBID_WHEN estimates: icu@50.00%.'',
                      ''Excluded 2 FORBID_IF_SQL rule(s) from estimate.''])"
proof -
  let ?m' = "ward_model [forbid_when_constraint ''Forbid_When'' ''icu'' [(''ward'', One ''GEN'')]]"
  let ?m = "ward_model ward_rules"
  note T = forbid_if_sql_excluded [of ?m' ?m "[0, 1]"]
  have prem: "m_flags ?m' = m_flags ?m \<and> m_categories ?m' = m_categories ?m \<and>
    filter not_forbid_if_sql (m_constraints ?m') = filter not_forbid_if_sql (m_constraints ?m)"
    by (simp add: ward_model_def filter_ward_rules not_forbid_if_sql_def tagged_examples upper_FORBID)
  from T prem have
    A: "map_sum id (\<lambda>x. x\<lparr>ev_notes := []\<rparr>) (estimate_vals_of ?m' [0, 1])
        = map_sum id (\<lambda>x. x\<lparr>ev_notes := []\<rparr>) (estimate_vals_of ?m [0, 1])" and
    B: "map_sum id ev_est_remaining (estimate_vals_of ?m' [0, 1])
        = map_sum id ev_est_remaining (estimate_vals_of ?m [0, 1])" and
    C: "map_sum id ev_est_pruned (estimate_vals_of ?m' [0, 1])
        = map_sum id ev_est_pruned (estimate_vals_of ?m [0, 1])"
    by blast+
  have 1: "map_sum id (\<lambda>x. x\<lparr>ev_notes := []\<rparr>) (estimate_vals_of ?m' [0, 1]) =
     Inr \<lparr>ev_n_eff = 2, ev_theoretical_max = 4, ev_prev = [(''icu'', 1 / 2)],
          ev_keep_prob = 3 / 4, ev_est_remaining = 3, ev_est_pruned = 1,
          ev_prev_line = ''icu=50.0%'', ev_notes = [], ev_pct = 75\<rparr>"
    unfolding A estimate_vals_ward by simp
  have 2: "map_sum id ev_est_remaining (estimate_vals_of ?m' [0, 1]) = Inr 3"
    unfolding B estimate_vals_ward by simp
  have 3: "map_sum id ev_est_pruned (estimate_vals_of ?m' [0, 1]) = Inr 1"
    unfolding C estimate_vals_ward by simp
  have n: "(2::int) = int (length (filter (tagged ''FORBID_IF_SQL'') (m_constraints ?m)))"
    by (simp add: ward_model_def count_ward_rules)
  from T estimate_vals_ward estimate_sanity_ward n
  obtain pre where pre: "notes_of (m_categories ?m) (filter not_forbid_if_sql (m_constraints ?m)) = Inr pre"
    and nx: "[''Applied FORBID_WHEN estimates: icu@50.00%.'',
              ''Excluded 2 FORBID_IF_SQL rule(s) from estimate.''] =
             pre @ [''Excluded '' @ str_int 2 @ '' FORBID_IF_SQL rule(s) from estimate.'']"
    and ne: "''Applied FORBID_WHEN estimates: icu@50.00%. Excluded 2 FORBID_IF_SQL rule(s) from estimate.'' =
             join '' '' (pre @ [''Excluded '' @ str_int 2 @ '' FORBID_IF_SQL rule(s) from estimate.''])"
    by fastforce
  from nx have p: "pre = [''Applied FORBID_WHEN estimates: icu@50.00%.'']"
    by (simp add: str_int_2 append_eq_Cons_conv Cons_eq_append_conv)
  from pre p have 4: "notes_of (m_categories ?m) (filter not_forbid_if_sql ward_rules) =
     Inr [''Applied FORBID_WHEN estimates: icu@50.00%.'']"
    by (simp add: ward_model_def)
  from ne p have 5: "map_sum id e_notes (estimate_sanity ?m [0, 1]) =
     Inr (join '' '' [''Applied FORBID_WHEN estimates: icu@50.00%.'',
                      ''Excluded 2 FORBID_IF_SQL rule(s) from estimate.''])"
    unfolding estimate_sanity_ward by (simp add: str_int_2)
  from 1 2 3 4 5 show ?thesis by (intro conjI)
qed

text \<open>
  C10. \<open>estimate_sanity\<close> never raises \<open>ZeroDivisionError\<close>, for any model and any list
  of masks, and whenever it returns with \<open>theoretical_max\<close> equal to 0 the percentage is
  0.0, reported as "0.0%". On the empty list of masks, for a model whose FORBID_WHEN
  rules have their \<open>if_flag\<close>, it returns a result with all six entries: the prevalence
  of every flag is 0.0, \<open>theoretical_max\<close>, \<open>est_remaining\<close> and \<open>est_pruned\<close> are 0 and
  the percentage is 0.0.
\<close>

theorem estimate_sanity_total_on_empty:
  "estimate_sanity m vm \<noteq> Inl ZeroDivisionError \<and>
   (\<forall>x e. estimate_vals_of m vm = Inr x \<and> estimate_sanity m vm = Inr e \<and>
      ev_theoretical_max x = 0 \<longrightarrow> ev_pct x = 0 \<and> e_est_pct e = ''0.0%'') \<and>
   (list_all has_if_flag (m_constraints m) \<longrightarrow>
      (\<exists>x e. estimate_vals_of m [] = Inr x \<and> estimate_sanity m [] = Inr e \<and>
         ev_theoretical_max x = 0 \<and>
         (\<forall>f\<in>set (m_flags m). map_of (ev_prev x) f = Some 0) \<and>
         ev_est_remaining x = 0 \<and> ev_est_pruned x = 0 \<and> ev_pct x = 0 \<and>
         e_prev_line e = join '', '' (map (\<lambda>k. k @ ''=0.0%'') (m_flags m)) \<and>
         e_theoretical_max e = ''0'' \<and> e_est_remaining e = ''0'' \<and>
         e_est_pruned e = ''0'' \<and> e_est_pct e = ''0.0%''))"
proof (intro conjI allI impI)
  show "estimate_sanity m vm \<noteq> Inl ZeroDivisionError"
    by (rule estimate_sanity_no_zde)
next
  fix x e
  assume a: "estimate_vals_of m vm = Inr x \<and> estimate_sanity m vm = Inr e \<and>
      ev_theoretical_max x = 0"
  then have x: "estimate_vals_of m vm = Inr x" and e: "estimate_sanity m vm = Inr e"
    and z: "ev_theoretical_max x \<le> 0"
    by simp_all
  from estimate_vals_fields(4) [OF x z] show p: "ev_pct x = 0" .
  from estimate_sanity_vals [OF x] e have "e_est_pct e = fmt_fixed 1 (ev_pct x) @ ''%''"
    by simp
  with p show "e_est_pct e = ''0.0%''"
    by (simp add: fmt_examples)
next
  assume "list_all has_if_flag (m_constraints m)"
  from estimate_vals_empty [OF this] obtain prev fracs ns where
    v: "estimate_vals_of m [] =
     Inr \<lparr>ev_n_eff = count_category_leaves (m_categories m), ev_theoretical_max = 0,
          ev_prev = prev, ev_keep_prob = keep_prob_of fracs, ev_est_remaining = 0,
          ev_est_pruned = 0,
          ev_prev_line = join '', '' (map (\<lambda>k. k @ ''=0.0%'') (m_flags m)),
          ev_notes = ns, ev_pct = 0\<rparr>"
    and z: "\<forall>f\<in>set (m_flags m). map_of prev f = Some 0"
    by blast
  define x where "x = \<lparr>ev_n_eff = count_category_leaves (m_categories m), ev_theoretical_max = 0,
          ev_prev = prev, ev_keep_prob = keep_prob_of fracs, ev_est_remaining = 0,
          ev_est_pruned = 0,
          ev_prev_line = join '', '' (map (\<lambda>k. k @ ''=0.0%'') (m_flags m)),
          ev_notes = ns, ev_pct = 0\<rparr>"
  define e where "e = \<lparr>e_prev_line = ev_prev_line x,
            e_theoretical_max = fmt_commas (ev_theoretical_max x),
            e_est_remaining = fmt_commas (ev_est_remaining x),
            e_est_pruned = fmt_commas (ev_est_pruned x),
            e_est_pct = fmt_fixed 1 (ev_pct x) @ ''%'',
            e_notes = (if ev_notes x \<noteq> [] then join '' '' (ev_notes x) else '''')\<rparr>"
  have vx: "estimate_vals_of m [] = Inr x"
    using v by (simp add: x_def)
  have se: "estimate_sanity m [] = Inr e"
    using estimate_sanity_vals [OF vx] by (simp add: e_def)
  have f1: "ev_theoretical_max x = 0" "ev_est_remaining x = 0" "ev_est_pruned x = 0" "ev_pct x = 0"
    by (simp_all add: x_def)
  have f2: "\<forall>f\<in>set (m_flags m). map_of (ev_prev x) f = Some 0"
    using z by (simp add: x_def)
  have f3: "e_prev_line e = join '', '' (map (\<lambda>k. k @ ''=0.0%'') (m_flags m))"
    by (simp add: e_def x_def)
  have f4: "e_theoretical_max e = ''0''" "e_est_remaining e = ''0''" "e_est_pruned e = ''0''"
    "e_est_pct e = ''0.0%''"
    by (simp_all add: e_def x_def commas_examples fmt_examples)
  show "\<exists>x e. estimate_vals_of m [] = Inr x \<and> estimate_sanity m [] = Inr e \<and>
         ev_theoretical_max x = 0 \<and>
         (\<forall>f\<in>set (m_flags m). map_of (ev_prev x) f = Some 0) \<and>
         ev_est_remaining x = 0 \<and> ev_est_pruned x = 0 \<and> ev_pct x = 0 \<and>
         e_prev_line e = join '', '' (map (\<lambda>k. k @ ''=0.0%'') (m_flags m)) \<and>
         e_theoretical_max e = ''0'' \<and> e_est_remaining e = ''0'' \<and>
         e_est_pruned e = ''0'' \<and> e_est_pct e = ''0.0%''"
  proof (intro exI conjI)
    show "estimate_vals_of m [] = Inr x" by (rule vx)
    show "estimate_sanity m [] = Inr e" by (rule se)
  qed (rule f1 f2 f3 f4)+
qed

lemma has_if_flag_ward_rules: "list_all has_if_flag ward_rules"
  by (simp add: ward_rules_def has_if_flag_def tagged_examples upper_FORBID forbid_when_fields)

text \<open>
  The model with one flag, one category and three rules, on the empty list of masks:
  the estimate returns, the prevalence of the flag is 0.0, and the entries are
  "icu=0.0%", "0", "0", "0" and "0.0%".
\<close>

theorem estimate_sanity_total_on_empty_witness:
  "estimate_sanity (ward_model ward_rules) [0, 1] \<noteq> Inl ZeroDivisionError \<and>
   (\<exists>x e. estimate_vals_of (ward_model ward_rules) [] = Inr x \<and>
      estimate_sanity (ward_model ward_rules) [] = Inr e \<and>
      ev_theoretical_max x = 0 \<and> map_of (ev_prev x) ''icu'' = Some 0 \<and>
      ev_est_remaining x = 0 \<and> ev_est_pruned x = 0 \<and> ev_pct x = 0 \<and>
      e_prev_line e = ''icu=0.0%'' \<and> e_theoretical_max e = ''0'' \<and>
      e_est_remaining e = ''0'' \<and> e_est_pruned e = ''0'' \<and> e_est_pct e = ''0.0%'')"
proof -
  have w: "list_all has_if_flag (m_constraints (ward_model ward_rules))"
    by (simp add: ward_model_def has_if_flag_ward_rules)
  have 1: "estimate_sanity (ward_model ward_rules) [0, 1] \<noteq> Inl ZeroDivisionError"
    using estimate_sanity_total_on_empty [of "ward_model ward_rules" "[0, 1]"] by blast
  from estimate_sanity_total_on_empty [of "ward_model ward_rules" "[]"] w
  obtain x e where r: "estimate_vals_of (ward_model ward_rules) [] = Inr x"
      "estimate_sanity (ward_model ward_rules) [] = Inr e"
      "ev_theoretical_max x = 0"
      "\<forall>f\<in>set (m_flags (ward_model ward_rules)). map_of (ev_prev x) f = Some 0"
      "ev_est_remaining x = 0" "ev_est_pruned x = 0" "ev_pct x = 0"
      "e_prev_line e = join '', '' (map (\<lambda>k. k @ ''=0.0%'') (m_flags (ward_model ward_rules)))"
      "e_theoretical_max e = ''0''" "e_est_remaining e = ''0''"
      "e_est_pruned e = ''0''" "e_est_pct e = ''0.0%''"
    by blast
  from r(4) have p: "map_of (ev_prev x) ''icu'' = Some 0"
    by (simp add: ward_model_def)
  from r(8) have l: "e_prev_line e = ''icu=0.0%''"
    by (simp add: ward_model_def)
  have 2: "\<exists>x e. estimate_vals_of (ward_model ward_rules) [] = Inr x \<and>
      estimate_sanity (ward_model ward_rules) [] = Inr e \<and>
      ev_theoretical_max x = 0 \<and> map_of (ev_prev x) ''icu'' = Some 0 \<and>
      ev_est_remaining x = 0 \<and> ev_est_pruned x = 0 \<and> ev_pct x = 0 \<and>
      e_prev_line e = ''icu=0.0%'' \<and> e_theoretical_max e = ''0'' \<and>
      e_est_remaining e = ''0'' \<and> e_est_pruned e = ''0'' \<and> e_est_pct e = ''0.0%''"
  proof (intro exI conjI)
    show "estimate_vals_of (ward_model ward_rules) [] = Inr x" by (rule r(1))
    show "estimate_sanity (ward_model ward_rules) [] = Inr e" by (rule r(2))
  qed (rule r p l)+
  from 1 2 show ?thesis by (rule conjI)
qed

end
